theory Spec2Isabelle
  imports Complex_Main "HOL-Library.Word" "HOL-Library.Signed_Division" "HOL-Library.Log_Nat"
begin

section \<open>mini-mandelbrot: constants and the pixel type\<close>

text \<open>
  The configuration macros of the program. \<open>WIDTH\<close> and \<open>HEIGHT\<close> are the raster size,
  \<open>MBR_MAX_ITERATIONS\<close> the iteration cap, \<open>MBR_DIVERGE_THRESHOLD\<close> the bound on the squared
  modulus, \<open>THR_MAX_ACTIVE\<close> the number of worker slots and \<open>PBITS\<close> the MPFR precision.
\<close>

definition WIDTH :: int where "WIDTH = 1366"
definition HEIGHT :: int where "HEIGHT = 768"
definition MBR_MAX_ITERATIONS :: int where "MBR_MAX_ITERATIONS = 256"
definition MBR_DIVERGE_THRESHOLD :: rat where "MBR_DIVERGE_THRESHOLD = 4"
definition THR_MAX_ACTIVE :: int where "THR_MAX_ACTIVE = 4"
definition PBITS :: int where "PBITS = 128"

text \<open>
  \<open>struct _pixel { uint8_t r, g, b, a; }\<close>. The fields carry a prefix, since a record field
  is a constant and one-letter constants would capture the variables of every later statement.
\<close>

record pixel =
  pix_r :: "8 word"
  pix_g :: "8 word"
  pix_b :: "8 word"
  pix_a :: "8 word"

definition pix_white :: pixel where
  "pix_white = \<lparr>pix_r = 0xFF, pix_g = 0xFF, pix_b = 0xFF, pix_a = 0xFF\<rparr>"

definition pix_black :: pixel where
  "pix_black = \<lparr>pix_r = 0x00, pix_g = 0x00, pix_b = 0x00, pix_a = 0x00\<rparr>"

section \<open>The colour mapper\<close>

text \<open>
  \<open>get_color\<close> works on C \<open>int\<close>s: \<open>/\<close> truncates towards zero (\<open>sdiv\<close>), and the assignment
  of an \<open>int\<close> to a \<open>uint8_t\<close> field keeps the value modulo 256 (\<open>word_of_int\<close>). The worker
  only passes indices from 0 to 256, for which no 32-bit intermediate overflows, so the
  arithmetic before the store is modelled on unbounded integers. \<open>output\<close> starts as
  \<open>{0}\<close>, all four fields zero.
\<close>

definition get_color :: "int \<Rightarrow> pixel" where
  "get_color ind =
     (let output = \<lparr>pix_r = 0, pix_g = 0, pix_b = 0, pix_a = 0\<rparr>;
          seg_size = MBR_MAX_ITERATIONS sdiv 3
      in if ind = MBR_MAX_ITERATIONS then pix_black
         else if ind \<ge> seg_size * 2 then
           output\<lparr>pix_b := word_of_int (0xFF - (ind - (seg_size * 3)) * 0xFF sdiv seg_size)\<rparr>
         else if ind \<ge> seg_size then
           output\<lparr>pix_b := word_of_int ((ind - (seg_size * 2)) * 0xFF sdiv seg_size),
                  pix_g := word_of_int (0xFF - (ind - (seg_size * 2)) * 0xFF sdiv seg_size)\<rparr>
         else
           output\<lparr>pix_g := word_of_int ((ind - seg_size) * 0xFF sdiv seg_size),
                  pix_r := word_of_int (0xFF - (ind - seg_size) * 0xFF sdiv seg_size)\<rparr>)"

lemma seg_size_val: "MBR_MAX_ITERATIONS sdiv 3 = 85"
  by (simp add: MBR_MAX_ITERATIONS_def signed_divide_int_def)

lemma sdiv_exact: "(l::int) dvd k \<Longrightarrow> k sdiv l = k div l"
  by (simp add: signed_divide_int_eq_divide_int)

lemma sdiv_mult_255_85: "(k * 0xFF) sdiv (85::int) = 3 * k"
proof -
  have d: "(85::int) dvd k * 0xFF" by (rule dvd_mult) simp
  have "k * 0xFF = (3 * k) * 85" by simp
  then have "(k * 0xFF) div (85::int) = 3 * k"
    by (metis nonzero_mult_div_cancel_right zero_neq_numeral)
  with sdiv_exact [OF d] show ?thesis by simp
qed

lemma div_mult_255_85: "(k * 255) div (85::int) = 3 * k"
proof -
  have "k * 255 = (3 * k) * 85" by simp
  then show ?thesis by (metis nonzero_mult_div_cancel_right zero_neq_numeral)
qed

lemma get_color_unfold:
  "get_color ind =
     (if ind = 256 then pix_black
      else if ind \<ge> 170 then
        \<lparr>pix_r = 0, pix_g = 0, pix_b = word_of_int (0xFF - 3 * (ind - 255)), pix_a = 0\<rparr>
      else if ind \<ge> 85 then
        \<lparr>pix_r = 0, pix_g = word_of_int (0xFF - 3 * (ind - 170)),
         pix_b = word_of_int (3 * (ind - 170)), pix_a = 0\<rparr>
      else
        \<lparr>pix_r = word_of_int (0xFF - 3 * (ind - 85)), pix_g = word_of_int (3 * (ind - 85)),
         pix_b = 0, pix_a = 0\<rparr>)"
proof -
  have e: "(85::int) * 2 = 170" "(85::int) * 3 = 255" by simp_all
  show ?thesis
    unfolding get_color_def Let_def seg_size_val e sdiv_mult_255_85
    by (simp add: MBR_MAX_ITERATIONS_def)
qed

lemma get_color_alpha: "pix_a (get_color ind) = 0"
  by (simp add: get_color_def Let_def pix_black_def)

text \<open>
  C4. The colour mapper has no failing branch; the index \<open>MBR_MAX_ITERATIONS\<close> (bounded) is
  mapped to \<open>pix_black\<close>, and no iteration count \<open>n\<close> with \<open>0 \<le> n < MBR_MAX_ITERATIONS\<close> is
  mapped to the sentinel \<open>pix_white\<close> (the alpha byte of every colour is 0).
\<close>

theorem get_color_palette_roundtrip:
  "get_color MBR_MAX_ITERATIONS = pix_black \<and>
   (0 \<le> n \<and> n < MBR_MAX_ITERATIONS \<longrightarrow> get_color n \<noteq> pix_white)"
proof
  show "get_color MBR_MAX_ITERATIONS = pix_black"
    by (simp add: get_color_def Let_def)
next
  have "pix_a (get_color n) \<noteq> pix_a pix_white"
    by (simp add: get_color_alpha pix_white_def)
  then show "0 \<le> n \<and> n < MBR_MAX_ITERATIONS \<longrightarrow> get_color n \<noteq> pix_white"
    by auto
qed

theorem get_color_palette_roundtrip_witness:
  "get_color 256 = pix_black \<and> (0::int) \<le> 100 \<and> (100::int) < 256 \<and> get_color 100 \<noteq> pix_white"
  using get_color_palette_roundtrip [of 100] by (simp add: MBR_MAX_ITERATIONS_def)

text \<open>
  C5. With \<open>S = M div 3\<close> and \<open>M = 256\<close>, the channels that \<open>get_color\<close> stores are the
  band formulas of the specification, each reduced to a byte: on \<open>[0, S)\<close> red is
  \<open>255 - (n - S) * 255 div S\<close>, green is \<open>(n - S) * 255 div S\<close> and blue is 0; on \<open>[S, 2S)\<close>
  blue is \<open>(n - 2S) * 255 div S\<close> and green is \<open>255 - (n - 2S) * 255 div S\<close>; on \<open>[2S, M)\<close>
  blue is \<open>255 - (n - 3S) * 255 div S\<close>.
\<close>

theorem get_color_bands:
  fixes n S :: int
  assumes "S = MBR_MAX_ITERATIONS div 3" and "0 \<le> n" and "n < MBR_MAX_ITERATIONS"
  shows "(n < S \<longrightarrow>
            pix_r (get_color n) = word_of_int (255 - (n - S) * 255 div S) \<and>
            pix_g (get_color n) = word_of_int ((n - S) * 255 div S) \<and>
            pix_b (get_color n) = 0) \<and>
         (S \<le> n \<and> n < 2 * S \<longrightarrow>
            pix_b (get_color n) = word_of_int ((n - 2 * S) * 255 div S) \<and>
            pix_g (get_color n) = word_of_int (255 - (n - 2 * S) * 255 div S)) \<and>
         (2 * S \<le> n \<longrightarrow>
            pix_b (get_color n) = word_of_int (255 - (n - 3 * S) * 255 div S))"
proof -
  have S: "S = 85" using assms(1) by (simp add: MBR_MAX_ITERATIONS_def)
  have e: "2 * (85::int) = 170" "3 * (85::int) = 255" by simp_all
  have M: "n \<noteq> 256" using assms(3) by (simp add: MBR_MAX_ITERATIONS_def)
  show ?thesis
    unfolding S e div_mult_255_85
    using M by (simp add: get_color_unfold)
qed

theorem get_color_bands_witness:
  "(85::int) = MBR_MAX_ITERATIONS div 3 \<and>
   pix_r (get_color 0) = word_of_int (255 - (0 - 85) * 255 div 85) \<and>
   pix_g (get_color 0) = word_of_int ((0 - 85) * 255 div 85) \<and>
   pix_b (get_color 0) = 0 \<and>
   pix_b (get_color 100) = word_of_int ((100 - 2 * 85) * 255 div 85) \<and>
   pix_g (get_color 100) = word_of_int (255 - (100 - 2 * 85) * 255 div 85) \<and>
   pix_b (get_color 200) = word_of_int (255 - (200 - 3 * 85) * 255 div 85)"
  using get_color_bands [of 85 0] get_color_bands [of 85 100] get_color_bands [of 85 200]
  by (simp add: MBR_MAX_ITERATIONS_def)

section \<open>MPFR numbers and doubles\<close>

text \<open>
  The viewport bounds and every intermediate of the evaluator are \<open>mpfr_t\<close> variables of
  \<open>PBITS\<close> bits, and every MPFR call in the program rounds with \<open>MPFR_RNDD\<close>. GMP/MPFR is a
  library outside the repository; its documented contract is that each operation returns
  the exact result rounded in the given direction to the precision of the destination.
  A finite MPFR number is modelled by the rational it denotes, and an operation by the exact
  rational operation followed by \<open>round_down PBITS\<close>. NaN, infinities and the sign of zero
  are left out (the program divides only by the constant 2.0), and the exponent range
  (about \<open>\<plusminus>2^62\<close>) is taken as unbounded.

  \<open>ilog2 x\<close> is the binary exponent \<open>\<lfloor>log\<^sub>2 x\<rfloor>\<close> of a positive rational, computed from bit
  lengths; \<open>round_down p x\<close> is the largest number with a \<open>p\<close>-bit significand that is at
  most \<open>x\<close>; \<open>round_nearest_even p x\<close> is the nearest such number, ties going to the even
  significand, which is the rounding of IEEE double arithmetic for \<open>p = 53\<close>.
\<close>

type_synonym mpfr = rat
type_synonym double = rat

definition ilog2 :: "rat \<Rightarrow> int" where
  "ilog2 x = (if 1 \<le> x then bitlen \<lfloor>x\<rfloor> - 1 else - bitlen (\<lceil>1 / x\<rceil> - 1))"

definition round_down :: "int \<Rightarrow> rat \<Rightarrow> rat" where
  "round_down p x =
     (if x = 0 then 0
      else let u = 2 powi (ilog2 \<bar>x\<bar> - (p - 1)) in of_int \<lfloor>x / u\<rfloor> * u)"

definition round_nearest_even :: "int \<Rightarrow> rat \<Rightarrow> rat" where
  "round_nearest_even p x =
     (if x = 0 then 0
      else let u = 2 powi (ilog2 \<bar>x\<bar> - (p - 1));
               q = x / u;
               n = \<lfloor>q\<rfloor>;
               f = q - of_int n
           in of_int (if f < 1 / 2 then n else if 1 / 2 < f then n + 1
                      else if even n then n else n + 1) * u)"

definition rndd :: "rat \<Rightarrow> mpfr" where
  "rndd x = round_down PBITS x"

definition mpfr_set :: "mpfr \<Rightarrow> mpfr" where
  "mpfr_set op = rndd op"

definition mpfr_set_d :: "double \<Rightarrow> mpfr" where
  "mpfr_set_d d = rndd d"

definition mpfr_add :: "mpfr \<Rightarrow> mpfr \<Rightarrow> mpfr" where
  "mpfr_add op1 op2 = rndd (op1 + op2)"

definition mpfr_sub :: "mpfr \<Rightarrow> mpfr \<Rightarrow> mpfr" where
  "mpfr_sub op1 op2 = rndd (op1 - op2)"

definition mpfr_mul :: "mpfr \<Rightarrow> mpfr \<Rightarrow> mpfr" where
  "mpfr_mul op1 op2 = rndd (op1 * op2)"

definition mpfr_mul_d :: "mpfr \<Rightarrow> double \<Rightarrow> mpfr" where
  "mpfr_mul_d op1 d = rndd (op1 * d)"

definition mpfr_div_d :: "mpfr \<Rightarrow> double \<Rightarrow> mpfr" where
  "mpfr_div_d op1 d = rndd (op1 / d)"

definition mpfr_cmp_d :: "mpfr \<Rightarrow> double \<Rightarrow> int" where
  "mpfr_cmp_d op1 d = (if op1 < d then - 1 else if op1 = d then 0 else 1)"

text \<open>The C expression \<open>(double) x / (double) (WIDTH - 1)\<close> on \<open>int\<close> operands.\<close>

definition double_of_int :: "int \<Rightarrow> double" where
  "double_of_int k = round_nearest_even 53 (of_int k)"

definition double_div :: "double \<Rightarrow> double \<Rightarrow> double" where
  "double_div a b = round_nearest_even 53 (a / b)"

text \<open>A rational is a \<open>PBITS\<close>-bit MPFR number when rounding leaves it alone.\<close>

definition mpfr_exact :: "rat \<Rightarrow> bool" where
  "mpfr_exact x \<longleftrightarrow> rndd x = x"

lemma powi_nat: "0 \<le> k \<Longrightarrow> (2::rat) powi k = 2 ^ nat k"
  by (simp add: power_int_def)

lemma ilog2_ge1:
  assumes "1 \<le> x"
  shows "2 powi ilog2 x \<le> x \<and> x < 2 powi (ilog2 x + 1)"
proof -
  define n where "n = \<lfloor>x\<rfloor>"
  have n1: "1 \<le> n" using assms by (simp add: n_def)
  then have n0: "0 < n" by simp
  have b: "2 ^ nat (bitlen n - 1) \<le> n" "n < 2 ^ nat (bitlen n)"
    using bitlen_bounds [OF n0] by simp_all
  have bl: "1 \<le> bitlen n"
    using n0 bitlen_eq_zero_iff [of n] bitlen_nonneg [of n] by linarith
  have e: "ilog2 x = bitlen n - 1" using assms by (simp add: ilog2_def n_def)
  have "(2::rat) powi (bitlen n - 1) = of_int (2 ^ nat (bitlen n - 1))"
    using bl by (simp add: powi_nat)
  also have "\<dots> \<le> of_int n" using b(1) by (simp only: of_int_le_iff)
  also have "\<dots> \<le> x" by (simp add: n_def)
  finally have lo: "2 powi (bitlen n - 1) \<le> x" .
  have "n + 1 \<le> 2 ^ nat (bitlen n)" using b(2) by simp
  then have "(of_int (n + 1) :: rat) \<le> of_int (2 ^ nat (bitlen n))"
    by (simp only: of_int_le_iff)
  moreover have "x < of_int (n + 1)" using floor_correct [of x] by (simp add: n_def)
  ultimately have "x < of_int (2 ^ nat (bitlen n))" by linarith
  also have "\<dots> = 2 powi (bitlen n - 1 + 1)" using bl by (simp add: powi_nat)
  finally show ?thesis using lo e by simp
qed

lemma ilog2_lt1:
  assumes "0 < x" "x < 1"
  shows "2 powi ilog2 x \<le> x \<and> x < 2 powi (ilog2 x + 1)"
proof -
  define y where "y = 1 / x"
  define m where "m = \<lceil>y\<rceil> - 1"
  have y1: "1 < y" using assms by (simp add: y_def)
  have m1: "1 \<le> m" using y1 by (simp add: m_def)
  then have m0: "0 < m" by simp
  have my: "of_int m < y" "y \<le> of_int m + 1"
    using ceiling_correct [of y] by (simp_all add: m_def)
  have b: "2 ^ nat (bitlen m - 1) \<le> m" "m < 2 ^ nat (bitlen m)"
    using bitlen_bounds [OF m0] by simp_all
  have bl: "1 \<le> bitlen m"
    using m0 bitlen_eq_zero_iff [of m] bitlen_nonneg [of m] by linarith
  have e: "ilog2 x = - bitlen m" using assms by (simp add: ilog2_def m_def y_def)
  have "(of_int (2 ^ nat (bitlen m - 1)) :: rat) \<le> of_int m"
    using b(1) by (simp only: of_int_le_iff)
  moreover have "(of_int (2 ^ nat (bitlen m - 1)) :: rat) = 2 ^ nat (bitlen m - 1)" by simp
  ultimately have lo: "(2::rat) ^ nat (bitlen m - 1) < y" using my(1) by linarith
  have "m + 1 \<le> 2 ^ nat (bitlen m)" using b(2) by simp
  then have "(of_int (m + 1) :: rat) \<le> of_int (2 ^ nat (bitlen m))"
    by (simp only: of_int_le_iff)
  moreover have "(of_int (2 ^ nat (bitlen m)) :: rat) = 2 ^ nat (bitlen m)" by simp
  moreover have "(of_int (m + 1) :: rat) = of_int m + 1" by simp
  ultimately have hi: "y \<le> (2::rat) ^ nat (bitlen m)" using my(2) by linarith
  have x: "x = 1 / y" using assms by (simp add: y_def)
  have p1: "(2::rat) powi (- bitlen m) = 1 / 2 ^ nat (bitlen m)"
    using bl by (simp add: power_int_def field_simps)
  have p2: "(2::rat) powi (- bitlen m + 1) = 1 / 2 ^ nat (bitlen m - 1)"
    using bl by (simp add: power_int_def field_simps nat_diff_distrib)
  have "1 / 2 ^ nat (bitlen m) \<le> 1 / y"
    using hi y1 by (simp add: frac_le)
  moreover have "1 / y < 1 / 2 ^ nat (bitlen m - 1)"
    using lo by (simp add: frac_less2)
  ultimately have "2 powi (- bitlen m) \<le> x \<and> x < 2 powi (- bitlen m + 1)"
    using p1 p2 x by simp
  then show ?thesis by (simp only: e)
qed

lemma ilog2_bounds:
  "0 < x \<Longrightarrow> 2 powi ilog2 x \<le> x \<and> x < 2 powi (ilog2 x + 1)"
  using ilog2_ge1 [of x] ilog2_lt1 [of x] by (cases "1 \<le> x") auto





lemma round_down_le: "round_down p x \<le> x"
proof (cases "x = 0")
  case True
  then show ?thesis by (simp add: round_down_def)
next
  case False
  define u :: rat where "u = 2 powi (ilog2 \<bar>x\<bar> - (p - 1))"
  have u0: "0 < u" by (simp add: u_def)
  have "of_int \<lfloor>x / u\<rfloor> * u \<le> (x / u) * u"
    using u0 by (intro mult_right_mono) simp_all
  also have "\<dots> = x" using u0 by simp
  finally show ?thesis using False by (simp add: round_down_def Let_def u_def)
qed

lemma round_down_mantissa:
  assumes "x \<noteq> 0" "1 \<le> p"
  shows "\<exists>n. round_down p x = of_int n * 2 powi (ilog2 \<bar>x\<bar> - (p - 1)) \<and> \<bar>n\<bar> \<le> 2 ^ nat p"
proof -
  define e where "e = ilog2 \<bar>x\<bar>"
  define u :: rat where "u = 2 powi (e - (p - 1))"
  define n where "n = \<lfloor>x / u\<rfloor>"
  have u0: "0 < u" by (simp add: u_def)
  have ax: "0 < \<bar>x\<bar>" using assms by simp
  have "\<bar>x\<bar> < 2 powi (e + 1)" using ilog2_bounds [OF ax] by (simp add: e_def)
  also have "\<dots> = 2 powi p * u" by (simp add: u_def flip: power_int_add)
  finally have "\<bar>x\<bar> / u < 2 powi p" using u0 by (simp add: pos_divide_less_eq)
  then have q: "\<bar>x / u\<bar> < 2 ^ nat p" using assms(2) u0 by (simp add: power_int_def)
  from q have q': "x / u < 2 ^ nat p" "- (2 ^ nat p) < x / u"
    by (simp_all only: abs_less_iff minus_less_iff)
  have "n < 2 ^ nat p" "- (2 ^ nat p) \<le> n"
    unfolding n_def using q' by (simp_all add: floor_less_iff le_floor_iff)
  then have "\<bar>n\<bar> \<le> 2 ^ nat p" by simp
  moreover have "round_down p x = of_int n * u"
    using assms by (simp add: round_down_def Let_def n_def u_def e_def)
  ultimately show ?thesis unfolding u_def e_def by blast
qed

lemma round_down_exact:
  assumes "x = of_int n * 2 powi k" "\<bar>n\<bar> \<le> 2 ^ nat p" "1 \<le> p"
  shows "round_down p x = x"
proof (cases "n = 0")
  case True
  then show ?thesis using assms by (simp add: round_down_def)
next
  case False
  define e where "e = ilog2 \<bar>x\<bar>"
  have x0: "x \<noteq> 0" using False assms(1) by simp
  then have ax: "0 < \<bar>x\<bar>" by simp
  have an: "\<bar>x\<bar> = of_int \<bar>n\<bar> * 2 powi k" by (simp add: assms(1) abs_mult)
  have lo: "2 powi e \<le> \<bar>x\<bar>" using ilog2_bounds [OF ax] by (simp add: e_def)
  have "(of_int \<bar>n\<bar> :: rat) \<le> of_int (2 ^ nat p)" using assms(2) by (simp only: of_int_le_iff)
  then have "(of_int \<bar>n\<bar> :: rat) \<le> 2 powi p" using assms(3) by (simp add: power_int_def)
  then have "\<bar>x\<bar> \<le> 2 powi p * 2 powi k" unfolding an by (simp add: mult_right_mono)
  then have hi: "\<bar>x\<bar> \<le> 2 powi (p + k)" by (simp add: power_int_add)
  have ek: "e \<le> p + k"
  proof (rule ccontr)
    assume "\<not> e \<le> p + k"
    then have "(2::rat) powi (p + k) < 2 powi e" by (intro power_int_strict_increasing) simp_all
    with lo hi show False by simp
  qed
  define j where "j = k - (e - (p - 1))"
  have xu: "x / 2 powi (e - (p - 1)) = of_int n * 2 powi j"
    by (simp add: assms(1) j_def power_int_diff)
  have "\<exists>z. x / 2 powi (e - (p - 1)) = of_int z"
  proof (cases "0 \<le> j")
    case True
    then have "of_int n * (2::rat) powi j = of_int (n * 2 ^ nat j)" by (simp add: power_int_def)
    with xu show ?thesis by metis
  next
    case False
    with ek have j: "j = -1" "e = p + k" by (simp_all add: j_def)
    have "\<bar>x\<bar> = 2 powi (p + k)" using lo hi j by simp
    then have "of_int \<bar>n\<bar> * (2::rat) powi k = 2 powi p * 2 powi k"
      unfolding an by (simp add: power_int_add)
    then have "(of_int \<bar>n\<bar> :: rat) = 2 powi p" by simp
    then have "(of_int \<bar>n\<bar> :: rat) = of_int (2 ^ nat p)" using assms(3) by (simp add: power_int_def)
    then have n: "\<bar>n\<bar> = 2 ^ nat p" by (simp only: of_int_eq_iff)
    have "nat p = Suc (nat (p - 1))" using assms(3) by simp
    then have "(2::int) ^ nat p = 2 * 2 ^ nat (p - 1)" by (simp only: power_Suc)
    with n have "2 dvd \<bar>n\<bar>" by simp
    then have "2 dvd n" by simp
    then obtain z where z: "n = 2 * z" by (elim dvdE)
    have "of_int n * (2::rat) powi j = of_int z" by (simp add: j z power_int_minus)
    with xu show ?thesis by metis
  qed
  then obtain z where z: "x / 2 powi (e - (p - 1)) = of_int z" by blast
  have "round_down p x = of_int \<lfloor>x / 2 powi (e - (p - 1))\<rfloor> * 2 powi (e - (p - 1))"
    using x0 by (simp add: round_down_def Let_def e_def)
  also have "\<dots> = x / 2 powi (e - (p - 1)) * 2 powi (e - (p - 1))"
    by (simp only: z floor_of_int)
  also have "\<dots> = x" by simp
  finally show ?thesis .
qed

lemma round_down_idem:
  assumes "1 \<le> p"
  shows "round_down p (round_down p x) = round_down p x"
proof (cases "x = 0")
  case True
  then show ?thesis by (simp add: round_down_def)
next
  case False
  from round_down_mantissa [OF False assms] obtain n where
    "round_down p x = of_int n * 2 powi (ilog2 \<bar>x\<bar> - (p - 1))" "\<bar>n\<bar> \<le> 2 ^ nat p"
    by blast
  then show ?thesis using assms by (rule round_down_exact)
qed


lemma rndd_idem: "rndd (rndd x) = rndd x"
  by (simp add: rndd_def PBITS_def round_down_idem)

lemma mpfr_exact_rndd: "mpfr_exact (rndd x)"
  by (simp add: mpfr_exact_def rndd_idem)


section \<open>The escape-time evaluator\<close>

text \<open>
  \<open>struct _img { mpfr_t r, i; }\<close> and the four global bounds. The body of the two pixel
  loops of \<open>compute_mandelbrot_sub\<close> first maps the pixel into the viewport (\<open>pixel_inp\<close>,
  the variable \<open>inp\<close>), then runs the iteration loop on \<open>cur\<close>, which starts at zero.
\<close>

record img =
  img_r :: mpfr
  img_i :: mpfr

record viewport =
  bound_left :: mpfr
  bound_right :: mpfr
  bound_top :: mpfr
  bound_bottom :: mpfr

definition pixel_inp :: "'a viewport_scheme \<Rightarrow> int \<Rightarrow> int \<Rightarrow> img" where
  "pixel_inp vp x y =
     (let inp_r = mpfr_sub (bound_right vp) (bound_left vp);
          inp_i = mpfr_sub (bound_top vp) (bound_bottom vp);
          inp_r = mpfr_mul_d inp_r (double_div (double_of_int x) (double_of_int (WIDTH - 1)));
          inp_i = mpfr_mul_d inp_i (double_div (double_of_int y) (double_of_int (HEIGHT - 1)));
          inp_r = mpfr_add inp_r (bound_left vp);
          inp_i = mpfr_add inp_i (bound_bottom vp)
      in \<lparr>img_r = inp_r, img_i = inp_i\<rparr>)"

text \<open>
  The loop \<open>for (i = 0; i < MBR_MAX_ITERATIONS; ++i)\<close>. The test on the squared modulus of
  \<open>cur\<close> is the first thing the body does; \<open>break\<close> leaves the loop with the current \<open>i\<close>,
  and a loop that runs out leaves \<open>i = MBR_MAX_ITERATIONS\<close>. The value returned is the \<open>i\<close>
  that is handed to \<open>get_color\<close>.
\<close>

function escape_loop :: "img \<Rightarrow> img \<Rightarrow> int \<Rightarrow> int" where
  "escape_loop inp cur i =
     (if i < MBR_MAX_ITERATIONS then
        (let dist = mpfr_mul (img_r cur) (img_r cur);
             dist2 = mpfr_mul (img_i cur) (img_i cur);
             dist = mpfr_add dist dist2
         in if mpfr_cmp_d dist MBR_DIVERGE_THRESHOLD \<ge> 0 then i
            else
              (let dist = mpfr_sub dist dist2;
                   rt = mpfr_sub dist dist2;
                   rt = mpfr_add rt (img_r inp);
                   cur_i = mpfr_mul (img_r cur) (img_i cur);
                   cur_i = mpfr_mul_d cur_i 2;
                   cur_i = mpfr_add cur_i (img_i inp);
                   cur_r = mpfr_set rt
               in escape_loop inp \<lparr>img_r = cur_r, img_i = cur_i\<rparr> (i + 1)))
      else i)"
  by pat_completeness auto
termination
  by (relation "measure (\<lambda>(inp, cur, i). nat (MBR_MAX_ITERATIONS - i))") auto

declare escape_loop.simps [simp del]

definition escape_iter :: "'a viewport_scheme \<Rightarrow> int \<Rightarrow> int \<Rightarrow> int" where
  "escape_iter vp x y =
     escape_loop (pixel_inp vp x y) \<lparr>img_r = mpfr_set_d 0, img_i = mpfr_set_d 0\<rparr> 0"

section \<open>The worker's scan of its region\<close>

text \<open>
  \<open>pixbuf\<close> is an array of \<open>WIDTH * HEIGHT\<close> pixels, indexed by \<open>y * WIDTH + x\<close>. The section
  between \<open>pthread_mutex_lock(&pixbuf_mutex)\<close> and the unlock is one step of the model: it
  compares the stored pixel with \<open>pix_white\<close> and either returns from
  \<open>compute_mandelbrot_sub\<close> or stores the colour. \<open>row_loop\<close> is the inner loop over \<open>x\<close>; its
  flag says whether the function has returned. \<open>col_loop\<close> is the outer loop over \<open>y\<close>.
\<close>

definition pix_index :: "int \<Rightarrow> int \<Rightarrow> nat" where
  "pix_index x y = nat (y * WIDTH + x)"

function row_loop :: "'a viewport_scheme \<Rightarrow> int \<Rightarrow> int \<Rightarrow> int \<Rightarrow> pixel list \<Rightarrow> bool \<times> pixel list" where
  "row_loop vp right y x buf =
     (if x \<le> right then
        (let i = escape_iter vp x y
         in if buf ! pix_index x y \<noteq> pix_white then (True, buf)
            else row_loop vp right y (x + 1) (buf[pix_index x y := get_color i]))
      else (False, buf))"
  by pat_completeness auto
termination
  by (relation "measure (\<lambda>(vp, right, y, x, buf). nat (right + 1 - x))") auto

declare row_loop.simps [simp del]

function col_loop :: "'a viewport_scheme \<Rightarrow> int \<Rightarrow> int \<Rightarrow> int \<Rightarrow> int \<Rightarrow> pixel list \<Rightarrow> pixel list" where
  "col_loop vp left right top' y buf =
     (if y \<le> top' then
        (case row_loop vp right y left buf of
           (True, buf') \<Rightarrow> buf'
         | (False, buf') \<Rightarrow> col_loop vp left right top' (y + 1) buf')
      else buf)"
  by pat_completeness auto
termination
  by (relation "measure (\<lambda>(vp, left, right, top', y, buf). nat (top' + 1 - y))") auto

declare col_loop.simps [simp del]

definition compute_mandelbrot_sub ::
    "'a viewport_scheme \<Rightarrow> int \<Rightarrow> int \<Rightarrow> int \<Rightarrow> int \<Rightarrow> pixel list \<Rightarrow> pixel list" where
  "compute_mandelbrot_sub vp left right top' bottom buf = col_loop vp left right top' bottom buf"

section \<open>The engine state, restart and the key handler\<close>

text \<open>
  \<open>struct _mandelbrot_params\<close>, with prefixed field names (\<open>top\<close> is a constant of HOL,
  which is also why the parameter \<open>top\<close> of the scan is written \<open>top'\<close>).
  \<open>call\<close> lists the effects of the main thread whose order in time matters: a raster
  reset, a \<open>pthread_cancel\<close> on a slot and a \<open>pthread_create\<close> for a slot. The engine
  record holds the globals: the bounds, \<open>pixbuf\<close>, \<open>live_threads\<close>, \<open>num_live_threads\<close>, and
  the calls made so far, oldest first. \<open>exit(10)\<close> ends the process: \<open>Inl (Exit 10)\<close>.
\<close>

record mandelbrot_params =
  p_left :: int
  p_right :: int
  p_top :: int
  p_bottom :: int
  thr_index :: int

datatype call = FlushPixels pixel | PthreadCancel int | PthreadCreate int mandelbrot_params

datatype fatal = Exit int

record engine = viewport +
  pixbuf :: "pixel list"
  live_threads :: "int list"
  num_live_threads :: int
  calls :: "call list"

function flush_loop :: "pixel \<Rightarrow> int \<Rightarrow> pixel list \<Rightarrow> pixel list" where
  "flush_loop c i buf =
     (if i < WIDTH * HEIGHT then flush_loop c (i + 1) (buf[nat i := c]) else buf)"
  by pat_completeness auto
termination
  by (relation "measure (\<lambda>(c, i, buf). nat (WIDTH * HEIGHT - i))") auto

declare flush_loop.simps [simp del]

definition flush_pixels :: "pixel \<Rightarrow> engine \<Rightarrow> engine" where
  "flush_pixels c s = s\<lparr>pixbuf := flush_loop c 0 (pixbuf s), calls := calls s @ [FlushPixels c]\<rparr>"

text \<open>
  The first loop of \<open>start_mandelbrot\<close> (the cleanup loop of \<open>main\<close> has the same body).
  \<open>cancel_slot\<close> is the section under \<open>live_threads_mutex\<close>: a slot whose flag is set is
  cancelled, its flag cleared and the count decremented.
\<close>

definition cancel_slot :: "int \<Rightarrow> engine \<Rightarrow> engine" where
  "cancel_slot i s =
     (if live_threads s ! nat i \<noteq> 0 then
        s\<lparr>calls := calls s @ [PthreadCancel i],
          live_threads := (live_threads s)[nat i := 0],
          num_live_threads := num_live_threads s - 1\<rparr>
      else s)"

function cancel_loop :: "int \<Rightarrow> engine \<Rightarrow> engine" where
  "cancel_loop i s =
     (if i < THR_MAX_ACTIVE then cancel_loop (i + 1) (cancel_slot i s) else s)"
  by pat_completeness auto
termination
  by (relation "measure (\<lambda>(i, s). nat (THR_MAX_ACTIVE - i))") auto

declare cancel_loop.simps [simp del]

text \<open>
  The second loop. \<open>ok i\<close> says whether \<open>pthread_create\<close> for slot \<open>i\<close> succeeds; it is the
  answer of the thread library. \<open>strip i\<close> is the parameter block built for slot \<open>i\<close>, and
  \<open>claim_slot\<close> the section under \<open>live_threads_mutex\<close> that sets the flag.
\<close>

definition strip :: "int \<Rightarrow> mandelbrot_params" where
  "strip i = \<lparr>p_left = i * (WIDTH sdiv THR_MAX_ACTIVE),
              p_right = (i + 1) * (WIDTH sdiv THR_MAX_ACTIVE) - 1,
              p_top = HEIGHT - 1,
              p_bottom = 0,
              thr_index = i\<rparr>"

definition claim_slot :: "int \<Rightarrow> engine \<Rightarrow> engine" where
  "claim_slot i s =
     s\<lparr>live_threads := (live_threads s)[nat i := 1],
       num_live_threads := num_live_threads s + 1\<rparr>"

function dispatch_loop :: "(int \<Rightarrow> bool) \<Rightarrow> int \<Rightarrow> engine \<Rightarrow> fatal + engine" where
  "dispatch_loop ok i s =
     (if i < THR_MAX_ACTIVE then
        (let p = strip i;
             s = claim_slot i s;
             s = s\<lparr>calls := calls s @ [PthreadCreate i p]\<rparr>
         in if \<not> ok i then Inl (Exit 10) else dispatch_loop ok (i + 1) s)
      else Inr s)"
  by pat_completeness auto
termination
  by (relation "measure (\<lambda>(ok, i, s). nat (THR_MAX_ACTIVE - i))") auto

declare dispatch_loop.simps [simp del]

definition start_mandelbrot :: "(int \<Rightarrow> bool) \<Rightarrow> engine \<Rightarrow> fatal + engine" where
  "start_mandelbrot ok s = dispatch_loop ok 0 (cancel_loop 0 s)"

text \<open>
  \<open>compute_mandelbrot\<close>, the body of a worker thread, run from start to end on the engine
  state: the scan, then the completion section under \<open>live_threads_mutex\<close>
  (\<open>release_slot\<close>), which clears the flag and decrements the count without a test.
\<close>

definition release_slot :: "int \<Rightarrow> engine \<Rightarrow> engine" where
  "release_slot i s =
     s\<lparr>live_threads := (live_threads s)[nat i := 0],
       num_live_threads := num_live_threads s - 1\<rparr>"

definition compute_mandelbrot :: "mandelbrot_params \<Rightarrow> engine \<Rightarrow> engine" where
  "compute_mandelbrot p s =
     (let s = s\<lparr>pixbuf := compute_mandelbrot_sub s (p_left p) (p_right p) (p_top p) (p_bottom p)
                              (pixbuf s)\<rparr>
      in if thr_index p \<ge> 0 then release_slot (thr_index p) s else s)"

text \<open>
  The key handler. The key and action codes are those of the GLFW header. \<open>next_bounds\<close> is
  the part of \<open>key_callback\<close> from the declaration of \<open>next_bl\<close> to the four \<open>mpfr_set\<close> that
  commit the new bounds; \<open>key_callback\<close> then resets the raster and restarts.
\<close>

definition GLFW_PRESS :: int where "GLFW_PRESS = 1"
definition GLFW_KEY_SPACE :: int where "GLFW_KEY_SPACE = 32"
definition GLFW_KEY_RIGHT :: int where "GLFW_KEY_RIGHT = 262"
definition GLFW_KEY_LEFT :: int where "GLFW_KEY_LEFT = 263"
definition GLFW_KEY_DOWN :: int where "GLFW_KEY_DOWN = 264"
definition GLFW_KEY_UP :: int where "GLFW_KEY_UP = 265"

definition next_bounds :: "int \<Rightarrow> 'a viewport_scheme \<Rightarrow> 'a viewport_scheme" where
  "next_bounds key s =
     (let next_bl = mpfr_set (bound_left s);
          next_br = mpfr_set (bound_right s);
          next_bb = mpfr_set (bound_bottom s);
          next_bt = mpfr_set (bound_top s);
          hdiff = mpfr_sub (bound_right s) (bound_left s);
          vdiff = mpfr_sub (bound_top s) (bound_bottom s);
          hdiff = mpfr_div_d hdiff 2;
          vdiff = mpfr_div_d vdiff 2;
          (next_bl, next_br, next_bb, next_bt) =
            (if key = GLFW_KEY_LEFT then
               (mpfr_sub (bound_left s) hdiff, mpfr_sub (bound_right s) hdiff, next_bb, next_bt)
             else if key = GLFW_KEY_RIGHT then
               (mpfr_add (bound_left s) hdiff, mpfr_add (bound_right s) hdiff, next_bb, next_bt)
             else if key = GLFW_KEY_UP then
               (next_bl, next_br, mpfr_add (bound_bottom s) vdiff, mpfr_add (bound_top s) vdiff)
             else if key = GLFW_KEY_DOWN then
               (next_bl, next_br, mpfr_sub (bound_bottom s) vdiff, mpfr_sub (bound_top s) vdiff)
             else if key = GLFW_KEY_SPACE then
               (let hdiff = mpfr_div_d hdiff 2;
                    vdiff = mpfr_div_d vdiff 2
                in (mpfr_add (bound_left s) hdiff, mpfr_sub (bound_right s) hdiff,
                    mpfr_add (bound_bottom s) vdiff, mpfr_sub (bound_top s) vdiff))
             else (next_bl, next_br, next_bb, next_bt))
      in s\<lparr>bound_left := mpfr_set next_bl,
           bound_right := mpfr_set next_br,
           bound_bottom := mpfr_set next_bb,
           bound_top := mpfr_set next_bt\<rparr>)"

definition key_callback :: "(int \<Rightarrow> bool) \<Rightarrow> int \<Rightarrow> int \<Rightarrow> engine \<Rightarrow> fatal + engine" where
  "key_callback ok key action s =
     (if action \<noteq> GLFW_PRESS then Inr s
      else start_mandelbrot ok (flush_pixels pix_white (next_bounds key s)))"

text \<open>
  The state that \<open>main\<close> sets up before the main loop: the default bounds (the four
  \<open>mpfr_set_d\<close> calls, collected in \<open>default_viewport\<close>), a zeroed raster (static storage), no
  live slot. \<open>main\<close> then resets the raster and starts the workers.
\<close>

definition BOUND_LEFT :: double where "BOUND_LEFT = - 5 / 2"
definition BOUND_RIGHT :: double where "BOUND_RIGHT = 1"
definition BOUND_TOP :: double where "BOUND_TOP = 1"
definition BOUND_BOTTOM :: double where "BOUND_BOTTOM = - 1"

definition default_viewport :: viewport where
  "default_viewport =
     \<lparr>bound_left = mpfr_set_d BOUND_LEFT,
      bound_right = mpfr_set_d BOUND_RIGHT,
      bound_top = mpfr_set_d BOUND_TOP,
      bound_bottom = mpfr_set_d BOUND_BOTTOM\<rparr>"

definition init_engine :: engine where
  "init_engine =
     \<lparr>bound_left = bound_left default_viewport,
      bound_right = bound_right default_viewport,
      bound_top = bound_top default_viewport,
      bound_bottom = bound_bottom default_viewport,
      pixbuf = replicate (nat (WIDTH * HEIGHT)) \<lparr>pix_r = 0, pix_g = 0, pix_b = 0, pix_a = 0\<rparr>,
      live_threads = replicate (nat THR_MAX_ACTIVE) 0,
      num_live_threads = 0,
      calls = []\<rparr>"

definition main_start :: "(int \<Rightarrow> bool) \<Rightarrow> fatal + engine" where
  "main_start ok = start_mandelbrot ok (flush_pixels pix_white init_engine)"

text \<open>
  Running one operation after another: a process that has exited runs nothing more.
  \<open>always_ok\<close> is the thread library that never fails to create a thread.
\<close>

definition and_then :: "fatal + engine \<Rightarrow> (engine \<Rightarrow> fatal + engine) \<Rightarrow> fatal + engine" where
  "and_then r f = (case r of Inl e \<Rightarrow> Inl e | Inr s \<Rightarrow> f s)"

definition always_ok :: "int \<Rightarrow> bool" where
  "always_ok i = True"


section \<open>Properties of the restart\<close>

lemma cancel_loop_unroll:
  "cancel_loop 0 s = cancel_slot 3 (cancel_slot 2 (cancel_slot 1 (cancel_slot 0 s)))"
proof -
  have 4: "cancel_loop 4 t = t" for t
    by (subst cancel_loop.simps) (simp add: THR_MAX_ACTIVE_def)
  have 3: "cancel_loop 3 t = cancel_slot 3 t" for t
    by (subst cancel_loop.simps) (simp add: THR_MAX_ACTIVE_def 4)
  have 2: "cancel_loop 2 t = cancel_slot 3 (cancel_slot 2 t)" for t
    by (subst cancel_loop.simps) (simp add: THR_MAX_ACTIVE_def 3)
  have 1: "cancel_loop 1 t = cancel_slot 3 (cancel_slot 2 (cancel_slot 1 t))" for t
    by (subst cancel_loop.simps) (simp add: THR_MAX_ACTIVE_def 2)
  show ?thesis
    by (subst cancel_loop.simps) (simp add: THR_MAX_ACTIVE_def 1)
qed

text \<open>
  One round of the dispatch loop whose \<open>pthread_create\<close> succeeds: the flag is set, the
  count incremented and the creation logged.
\<close>

definition create_slot :: "int \<Rightarrow> engine \<Rightarrow> engine" where
  "create_slot i s = (claim_slot i s)\<lparr>calls := calls (claim_slot i s) @ [PthreadCreate i (strip i)]\<rparr>"

lemma dispatch_loop_step:
  "dispatch_loop ok i s =
     (if i < THR_MAX_ACTIVE then
        if ok i then dispatch_loop ok (i + 1) (create_slot i s) else Inl (Exit 10)
      else Inr s)"
  by (subst dispatch_loop.simps) (simp add: Let_def create_slot_def)

lemma dispatch_loop_unroll:
  "dispatch_loop ok 0 s =
     (if \<not> ok 0 then Inl (Exit 10)
      else if \<not> ok 1 then Inl (Exit 10)
      else if \<not> ok 2 then Inl (Exit 10)
      else if \<not> ok 3 then Inl (Exit 10)
      else Inr (create_slot 3 (create_slot 2 (create_slot 1 (create_slot 0 s)))))"
proof -
  have 4: "dispatch_loop ok 4 t = Inr t" for t
    by (subst dispatch_loop_step) (simp add: THR_MAX_ACTIVE_def)
  have 3: "dispatch_loop ok 3 t = (if ok 3 then Inr (create_slot 3 t) else Inl (Exit 10))" for t
    by (subst dispatch_loop_step) (simp add: THR_MAX_ACTIVE_def 4)
  have 2: "dispatch_loop ok 2 t =
      (if ok 2 then if ok 3 then Inr (create_slot 3 (create_slot 2 t)) else Inl (Exit 10)
       else Inl (Exit 10))" for t
    by (subst dispatch_loop_step) (simp add: THR_MAX_ACTIVE_def 3)
  have 1: "dispatch_loop ok 1 t =
      (if ok 1 then if ok 2 then if ok 3 then Inr (create_slot 3 (create_slot 2 (create_slot 1 t)))
         else Inl (Exit 10) else Inl (Exit 10) else Inl (Exit 10))" for t
    by (subst dispatch_loop_step) (simp add: THR_MAX_ACTIVE_def 2)
  show ?thesis
    by (subst dispatch_loop_step) (simp add: THR_MAX_ACTIVE_def 1)
qed

text \<open>
  C8. A \<open>pthread_create\<close> that fails during dispatch ends the whole operation: if the thread
  library refuses any of the \<open>THR_MAX_ACTIVE\<close> slots, \<open>start_mandelbrot\<close> (and so a key press
  that restarts) is \<open>exit(10)\<close>, however many workers were created before; only when every
  slot is granted does the restart return an engine state.
\<close>

theorem spawn_failure_fatal:
  "((\<exists>i. 0 \<le> i \<and> i < THR_MAX_ACTIVE \<and> \<not> ok i) \<longrightarrow>
      start_mandelbrot ok s = Inl (Exit 10) \<and> key_callback ok key GLFW_PRESS s = Inl (Exit 10)) \<and>
   ((\<forall>i. 0 \<le> i \<and> i < THR_MAX_ACTIVE \<longrightarrow> ok i) \<longrightarrow> (\<exists>s'. start_mandelbrot ok s = Inr s'))"
proof -
  have c: "i = 0 \<or> i = 1 \<or> i = 2 \<or> i = 3" if "0 \<le> i" "i < THR_MAX_ACTIVE" for i
    using that by (auto simp: THR_MAX_ACTIVE_def)
  have in_range: "0 \<le> i \<and> i < THR_MAX_ACTIVE" if "i = 0 \<or> i = 1 \<or> i = 2 \<or> i = 3" for i
    using that by (auto simp: THR_MAX_ACTIVE_def)
  have a: "(\<exists>i. 0 \<le> i \<and> i < THR_MAX_ACTIVE \<and> \<not> ok i) \<longleftrightarrow> \<not> ok 0 \<or> \<not> ok 1 \<or> \<not> ok 2 \<or> \<not> ok 3"
    using c in_range by metis
  have b: "(\<forall>i. 0 \<le> i \<and> i < THR_MAX_ACTIVE \<longrightarrow> ok i) \<longleftrightarrow> ok 0 \<and> ok 1 \<and> ok 2 \<and> ok 3"
    using c in_range by metis
  show ?thesis
    unfolding a b key_callback_def start_mandelbrot_def dispatch_loop_unroll by auto
qed

definition fails_at_2 :: "int \<Rightarrow> bool" where
  "fails_at_2 i \<longleftrightarrow> i \<noteq> 2"

theorem spawn_failure_fatal_witness:
  "(0::int) \<le> 2 \<and> 2 < THR_MAX_ACTIVE \<and> \<not> fails_at_2 2 \<and>
   start_mandelbrot fails_at_2 init_engine = Inl (Exit 10) \<and>
   key_callback fails_at_2 GLFW_KEY_SPACE GLFW_PRESS init_engine = Inl (Exit 10) \<and>
   always_ok 0 \<and> always_ok 1 \<and> always_ok 2 \<and> always_ok 3 \<and>
   (\<exists>s'. start_mandelbrot always_ok init_engine = Inr s')"
proof -
  have f: "\<exists>i. 0 \<le> i \<and> i < THR_MAX_ACTIVE \<and> \<not> fails_at_2 i"
    by (rule exI [of _ 2]) (simp add: THR_MAX_ACTIVE_def fails_at_2_def)
  have g: "\<forall>i. 0 \<le> i \<and> i < THR_MAX_ACTIVE \<longrightarrow> always_ok i"
    by (simp add: always_ok_def)
  have a: "always_ok 0 \<and> always_ok 1 \<and> always_ok 2 \<and> always_ok 3"
    by (simp add: always_ok_def)
  have r: "(0::int) \<le> 2 \<and> 2 < THR_MAX_ACTIVE \<and> \<not> fails_at_2 2"
    by (simp add: THR_MAX_ACTIVE_def fails_at_2_def)
  from spawn_failure_fatal [of fails_at_2 init_engine GLFW_KEY_SPACE] f
  have 1: "start_mandelbrot fails_at_2 init_engine = Inl (Exit 10) \<and>
           key_callback fails_at_2 GLFW_KEY_SPACE GLFW_PRESS init_engine = Inl (Exit 10)"
    by blast
  from spawn_failure_fatal [of always_ok init_engine GLFW_KEY_SPACE] g
  have 2: "\<exists>s'. start_mandelbrot always_ok init_engine = Inr s'"
    by blast
  from r 1 a 2 show ?thesis by (simp only: simp_thms)
qed

lemma cancel_slot_fields:
  "bound_left (cancel_slot i s) = bound_left s"
  "bound_right (cancel_slot i s) = bound_right s"
  "bound_top (cancel_slot i s) = bound_top s"
  "bound_bottom (cancel_slot i s) = bound_bottom s"
  "pixbuf (cancel_slot i s) = pixbuf s"
  "live_threads (cancel_slot i s) =
     (if live_threads s ! nat i \<noteq> 0 then (live_threads s)[nat i := 0] else live_threads s)"
  "num_live_threads (cancel_slot i s) =
     (if live_threads s ! nat i \<noteq> 0 then num_live_threads s - 1 else num_live_threads s)"
  "calls (cancel_slot i s) =
     (if live_threads s ! nat i \<noteq> 0 then calls s @ [PthreadCancel i] else calls s)"
  by (simp_all add: cancel_slot_def)

lemma create_slot_fields:
  "bound_left (create_slot i s) = bound_left s"
  "bound_right (create_slot i s) = bound_right s"
  "bound_top (create_slot i s) = bound_top s"
  "bound_bottom (create_slot i s) = bound_bottom s"
  "pixbuf (create_slot i s) = pixbuf s"
  "live_threads (create_slot i s) = (live_threads s)[nat i := 1]"
  "num_live_threads (create_slot i s) = num_live_threads s + 1"
  "calls (create_slot i s) = calls s @ [PthreadCreate i (strip i)]"
  by (simp_all add: create_slot_def claim_slot_def)

lemma release_slot_fields:
  "bound_left (release_slot i s) = bound_left s"
  "bound_right (release_slot i s) = bound_right s"
  "bound_top (release_slot i s) = bound_top s"
  "bound_bottom (release_slot i s) = bound_bottom s"
  "pixbuf (release_slot i s) = pixbuf s"
  "live_threads (release_slot i s) = (live_threads s)[nat i := 0]"
  "num_live_threads (release_slot i s) = num_live_threads s - 1"
  "calls (release_slot i s) = calls s"
  by (simp_all add: release_slot_def)

text \<open>
  \<open>count_live\<close> is the number of set flags of the slot table, \<open>live_slots\<close> the slots whose
  flag is set, in the order in which the cancel loop visits them, and \<open>creates\<close> the four
  \<open>pthread_create\<close> calls of a dispatch that succeeds.
\<close>

definition count_live :: "engine \<Rightarrow> int" where
  "count_live s = int (length (filter (\<lambda>f. f \<noteq> 0) (live_threads s)))"

definition live_slots :: "engine \<Rightarrow> int list" where
  "live_slots s = filter (\<lambda>i. live_threads s ! nat i \<noteq> 0) [0, 1, 2, 3]"

definition creates :: "call list" where
  "creates = map (\<lambda>i. PthreadCreate i (strip i)) [0, 1, 2, 3]"

lemma length4E:
  assumes "length xs = 4"
  obtains a b c d where "xs = [a, b, c, d]"
proof -
  from assms obtain a xs1 where 1: "xs = a # xs1" "length xs1 = 3"
    by (cases xs) auto
  then obtain b xs2 where 2: "xs1 = b # xs2" "length xs2 = 2"
    by (cases xs1) auto
  then obtain c xs3 where 3: "xs2 = c # xs3" "length xs3 = 1"
    by (cases xs2) auto
  then obtain d where 4: "xs3 = [d]"
    by (cases xs3) auto
  from 1 2 3 4 that show thesis by simp
qed

lemma cancel_loop_calls:
  "calls (cancel_loop 0 s) = calls s @ map PthreadCancel (live_slots s)"
  by (simp add: cancel_loop_unroll cancel_slot_fields live_slots_def)

lemma cancel_loop_frame:
  "bound_left (cancel_loop 0 s) = bound_left s"
  "bound_right (cancel_loop 0 s) = bound_right s"
  "bound_top (cancel_loop 0 s) = bound_top s"
  "bound_bottom (cancel_loop 0 s) = bound_bottom s"
  "pixbuf (cancel_loop 0 s) = pixbuf s"
  by (simp_all add: cancel_loop_unroll cancel_slot_fields)

lemma cancel_loop_slots:
  assumes "length (live_threads s) = 4"
  shows "live_threads (cancel_loop 0 s) = [0, 0, 0, 0]"
    and "num_live_threads (cancel_loop 0 s) = num_live_threads s - count_live s"
proof -
  from assms obtain a b c d where l: "live_threads s = [a, b, c, d]" by (rule length4E)
  show "live_threads (cancel_loop 0 s) = [0, 0, 0, 0]"
    by (simp add: cancel_loop_unroll cancel_slot_fields l eval_nat_numeral)
  show "num_live_threads (cancel_loop 0 s) = num_live_threads s - count_live s"
    by (simp add: cancel_loop_unroll cancel_slot_fields l eval_nat_numeral count_live_def)
qed

lemma flush_loop_general:
  "0 \<le> i \<Longrightarrow> i \<le> WIDTH * HEIGHT \<Longrightarrow> length buf = nat (WIDTH * HEIGHT) \<Longrightarrow>
   flush_loop c i buf = take (nat i) buf @ replicate (nat (WIDTH * HEIGHT - i)) c"
proof (induction c i buf rule: flush_loop.induct)
  case (1 c i buf)
  show ?case
  proof (cases "i < WIDTH * HEIGHT")
    case False
    with "1.prems" have "i = WIDTH * HEIGHT" by simp
    then show ?thesis
      using "1.prems" by (subst flush_loop.simps) simp
  next
    case True
    have k: "nat i < length buf" using True "1.prems" by simp
    have n1: "nat (i + 1) = Suc (nat i)" using "1.prems" by simp
    have n2: "nat (WIDTH * HEIGHT - i) = Suc (nat (WIDTH * HEIGHT - (i + 1)))"
      using True by simp
    have "flush_loop c i buf = flush_loop c (i + 1) (buf[nat i := c])"
      using True by (subst flush_loop.simps) simp
    also have "\<dots> = take (nat (i + 1)) (buf[nat i := c])
                      @ replicate (nat (WIDTH * HEIGHT - (i + 1))) c"
      using True "1.prems" by (intro "1.IH") simp_all
    also have "take (nat (i + 1)) (buf[nat i := c]) = take (nat i) buf @ [c]"
      using k by (simp add: n1 take_Suc_conv_app_nth)
    finally show ?thesis
      by (simp only: n2 replicate_Suc append_assoc append_Cons append_Nil)
  qed
qed

definition white_raster :: "pixel list" where
  "white_raster = replicate (nat (WIDTH * HEIGHT)) pix_white"

lemma flush_pixels_fields:
  "bound_left (flush_pixels c s) = bound_left s"
  "bound_right (flush_pixels c s) = bound_right s"
  "bound_top (flush_pixels c s) = bound_top s"
  "bound_bottom (flush_pixels c s) = bound_bottom s"
  "live_threads (flush_pixels c s) = live_threads s"
  "num_live_threads (flush_pixels c s) = num_live_threads s"
  "calls (flush_pixels c s) = calls s @ [FlushPixels c]"
  by (simp_all add: flush_pixels_def)

lemma flush_pixels_white:
  "length (pixbuf s) = nat (WIDTH * HEIGHT) \<Longrightarrow> pixbuf (flush_pixels pix_white s) = white_raster"
  using flush_loop_general [of 0 "pixbuf s" pix_white]
  by (simp add: flush_pixels_def white_raster_def WIDTH_def HEIGHT_def)

lemma next_bounds_fields:
  "pixbuf (next_bounds key s) = pixbuf s"
  "live_threads (next_bounds key s) = live_threads s"
  "num_live_threads (next_bounds key s) = num_live_threads s"
  "calls (next_bounds key s) = calls s"
  by (simp_all add: next_bounds_def Let_def split: prod.splits)

lemma start_mandelbrot_ok:
  assumes "\<forall>i. 0 \<le> i \<and> i < THR_MAX_ACTIVE \<longrightarrow> ok i"
  shows "start_mandelbrot ok s =
           Inr (create_slot 3 (create_slot 2 (create_slot 1 (create_slot 0 (cancel_loop 0 s)))))"
proof -
  have "ok 0" "ok 1" "ok 2" "ok 3" using assms by (simp_all add: THR_MAX_ACTIVE_def)
  then show ?thesis by (simp add: start_mandelbrot_def dispatch_loop_unroll)
qed

lemma start_mandelbrot_effect:
  assumes "\<forall>i. 0 \<le> i \<and> i < THR_MAX_ACTIVE \<longrightarrow> ok i"
  shows "\<exists>s'. start_mandelbrot ok s = Inr s' \<and>
           bound_left s' = bound_left s \<and> bound_right s' = bound_right s \<and>
           bound_top s' = bound_top s \<and> bound_bottom s' = bound_bottom s \<and>
           pixbuf s' = pixbuf s \<and>
           calls s' = calls s @ map PthreadCancel (live_slots s) @ creates \<and>
           (length (live_threads s) = 4 \<longrightarrow>
              live_threads s' = [1, 1, 1, 1] \<and>
              num_live_threads s' = num_live_threads s - count_live s + 4)"
  by (simp add: start_mandelbrot_ok [OF assms] create_slot_fields cancel_loop_frame
      cancel_loop_calls cancel_loop_slots creates_def eval_nat_numeral)

lemma and_then_simps:
  "and_then (Inr s) f = f s"
  "and_then (Inl e) f = Inl e"
  by (simp_all add: and_then_def)

lemma all_always_ok: "\<forall>i. 0 \<le> i \<and> i < THR_MAX_ACTIVE \<longrightarrow> always_ok i"
  by (simp add: always_ok_def)

lemma key_callback_press:
  "key_callback ok key GLFW_PRESS s = start_mandelbrot ok (flush_pixels pix_white (next_bounds key s))"
  by (simp add: key_callback_def)

lemma key_callback_calls:
  assumes "\<forall>i. 0 \<le> i \<and> i < THR_MAX_ACTIVE \<longrightarrow> ok i"
  shows "\<exists>s'. key_callback ok key GLFW_PRESS s = Inr s' \<and>
           calls s' = calls s @ [FlushPixels pix_white] @ map PthreadCancel (live_slots s) @ creates \<and>
           (length (live_threads s) = 4 \<longrightarrow>
              live_threads s' = [1, 1, 1, 1] \<and>
              num_live_threads s' = num_live_threads s - count_live s + 4)"
proof -
  let ?t = "flush_pixels pix_white (next_bounds key s)"
  have ls: "live_slots ?t = live_slots s"
    by (simp add: live_slots_def flush_pixels_fields next_bounds_fields)
  have cl: "count_live ?t = count_live s"
    by (simp add: count_live_def flush_pixels_fields next_bounds_fields)
  from start_mandelbrot_effect [OF assms, of ?t] obtain s' where
    "start_mandelbrot ok ?t = Inr s'"
    "calls s' = calls ?t @ map PthreadCancel (live_slots ?t) @ creates"
    "length (live_threads ?t) = 4 \<longrightarrow>
       live_threads s' = [1, 1, 1, 1] \<and>
       num_live_threads s' = num_live_threads ?t - count_live ?t + 4"
    by blast
  then show ?thesis
    by (simp add: key_callback_press ls cl flush_pixels_fields next_bounds_fields)
qed

lemma main_start_effect:
  "\<exists>s1. main_start always_ok = Inr s1 \<and> calls s1 = FlushPixels pix_white # creates \<and>
         live_threads s1 = [1, 1, 1, 1] \<and> num_live_threads s1 = 4 \<and>
         pixbuf s1 = white_raster \<and>
         bound_left s1 = bound_left default_viewport \<and> bound_right s1 = bound_right default_viewport \<and>
         bound_top s1 = bound_top default_viewport \<and> bound_bottom s1 = bound_bottom default_viewport"
proof -
  let ?t = "flush_pixels pix_white init_engine"
  have i: "live_threads init_engine = [0, 0, 0, 0]" "num_live_threads init_engine = 0"
    "calls init_engine = []" "length (pixbuf init_engine) = nat (WIDTH * HEIGHT)"
    by (simp_all add: init_engine_def THR_MAX_ACTIVE_def eval_nat_numeral)
  have b: "bound_left init_engine = bound_left default_viewport"
    "bound_right init_engine = bound_right default_viewport"
    "bound_top init_engine = bound_top default_viewport"
    "bound_bottom init_engine = bound_bottom default_viewport"
    by (simp_all add: init_engine_def)
  have ls: "live_slots ?t = []" "count_live ?t = 0"
    by (simp_all add: live_slots_def count_live_def flush_pixels_fields i)
  from start_mandelbrot_effect [OF all_always_ok, of ?t] obtain s' where
    "start_mandelbrot always_ok ?t = Inr s'"
    "bound_left s' = bound_left ?t" "bound_right s' = bound_right ?t"
    "bound_top s' = bound_top ?t" "bound_bottom s' = bound_bottom ?t"
    "pixbuf s' = pixbuf ?t"
    "calls s' = calls ?t @ map PthreadCancel (live_slots ?t) @ creates"
    "length (live_threads ?t) = 4 \<longrightarrow>
       live_threads s' = [1, 1, 1, 1] \<and>
       num_live_threads s' = num_live_threads ?t - count_live ?t + 4"
    by blast
  then show ?thesis
    by (simp add: main_start_def ls flush_pixels_fields i b flush_pixels_white)
qed




section \<open>Keys that are not navigation commands\<close>

lemma next_bounds_other_key:
  assumes "mpfr_exact (bound_left s)" "mpfr_exact (bound_right s)"
    "mpfr_exact (bound_top s)" "mpfr_exact (bound_bottom s)"
    and "key \<noteq> GLFW_KEY_LEFT" "key \<noteq> GLFW_KEY_RIGHT" "key \<noteq> GLFW_KEY_UP"
    "key \<noteq> GLFW_KEY_DOWN" "key \<noteq> GLFW_KEY_SPACE"
  shows "next_bounds key s = s"
  using assms by (simp add: next_bounds_def Let_def mpfr_set_def mpfr_exact_def)

text \<open>
  C9. For a key press whose key is none of left, right, up, down and space, the handler
  leaves the four bounds as they are (the \<open>switch\<close> has no default case, and the copies
  through \<open>mpfr_set\<close> between variables of the same precision are exact), and it still
  resets the raster and restarts: the handler is \<open>flush_pixels\<close> followed by
  \<open>start_mandelbrot\<close>, and when the four threads can be created the resulting raster is
  all \<open>pix_white\<close>, every live worker has been cancelled and four workers have been
  created. The bounds are assumed to be \<open>PBITS\<close>-bit numbers, as every value that the
  program stores in them is; the two arrays have their declared sizes.
\<close>

theorem other_key_restarts:
  assumes "mpfr_exact (bound_left s)" "mpfr_exact (bound_right s)"
    "mpfr_exact (bound_top s)" "mpfr_exact (bound_bottom s)"
    and "key \<noteq> GLFW_KEY_LEFT" "key \<noteq> GLFW_KEY_RIGHT" "key \<noteq> GLFW_KEY_UP"
    "key \<noteq> GLFW_KEY_DOWN" "key \<noteq> GLFW_KEY_SPACE"
    and "length (pixbuf s) = nat (WIDTH * HEIGHT)"
    and "length (live_threads s) = nat THR_MAX_ACTIVE"
    and "\<forall>i. 0 \<le> i \<and> i < THR_MAX_ACTIVE \<longrightarrow> ok i"
  shows "key_callback ok key GLFW_PRESS s = start_mandelbrot ok (flush_pixels pix_white s) \<and>
         (\<exists>s'. key_callback ok key GLFW_PRESS s = Inr s' \<and>
            bound_left s' = bound_left s \<and> bound_right s' = bound_right s \<and>
            bound_top s' = bound_top s \<and> bound_bottom s' = bound_bottom s \<and>
            pixbuf s' = white_raster \<and>
            live_threads s' = [1, 1, 1, 1] \<and>
            calls s' = calls s @ [FlushPixels pix_white] @ map PthreadCancel (live_slots s) @ creates)"
proof -
  have nb: "next_bounds key s = s" using assms(1-9) by (rule next_bounds_other_key)
  let ?t = "flush_pixels pix_white s"
  have kc: "key_callback ok key GLFW_PRESS s = start_mandelbrot ok ?t"
    by (simp add: key_callback_press nb)
  have l4: "length (live_threads ?t) = 4"
    using assms(11) by (simp add: flush_pixels_fields THR_MAX_ACTIVE_def)
  have ls: "live_slots ?t = live_slots s"
    by (simp add: live_slots_def flush_pixels_fields)
  from start_mandelbrot_effect [OF assms(12), of ?t] obtain s' where
    "start_mandelbrot ok ?t = Inr s'"
    "bound_left s' = bound_left ?t" "bound_right s' = bound_right ?t"
    "bound_top s' = bound_top ?t" "bound_bottom s' = bound_bottom ?t"
    "pixbuf s' = pixbuf ?t"
    "calls s' = calls ?t @ map PthreadCancel (live_slots ?t) @ creates"
    "length (live_threads ?t) = 4 \<longrightarrow>
       live_threads s' = [1, 1, 1, 1] \<and>
       num_live_threads s' = num_live_threads ?t - count_live ?t + 4"
    by blast
  then show ?thesis
    using l4 by (simp add: kc ls flush_pixels_fields flush_pixels_white [OF assms(10)])
qed

lemma rndd_dyadic:
  "\<bar>n\<bar> \<le> 2 ^ 128 \<Longrightarrow> rndd (of_int n * 2 powi k) = of_int n * 2 powi k"
  unfolding rndd_def PBITS_def by (rule round_down_exact [of _ n k]) simp_all

lemma rndd_consts:
  "rndd 0 = 0" "rndd 1 = 1" "rndd (- 1) = - 1" "rndd (- (5 / 2)) = - (5 / 2)"
  using rndd_dyadic [of 0 0] rndd_dyadic [of 1 0] rndd_dyadic [of "- 1" 0]
    rndd_dyadic [of "- 5" "- 1"]
  by (simp_all add: power_int_minus)

lemma default_bounds:
  "bound_left default_viewport = - (5 / 2)" "bound_right default_viewport = 1"
  "bound_top default_viewport = 1" "bound_bottom default_viewport = - 1"
  by (simp_all add: default_viewport_def mpfr_set_d_def BOUND_LEFT_def BOUND_RIGHT_def
      BOUND_TOP_def BOUND_BOTTOM_def rndd_consts)

lemma default_bounds_exact:
  "mpfr_exact (bound_left default_viewport)" "mpfr_exact (bound_right default_viewport)"
  "mpfr_exact (bound_top default_viewport)" "mpfr_exact (bound_bottom default_viewport)"
  by (simp_all add: default_viewport_def mpfr_set_d_def mpfr_exact_rndd)

text \<open>The initial engine with all four slots marked live.\<close>

definition busy_engine :: engine where
  "busy_engine = init_engine\<lparr>live_threads := [1, 1, 1, 1], num_live_threads := 4\<rparr>"

theorem other_key_restarts_witness:
  "mpfr_exact (bound_left busy_engine) \<and> mpfr_exact (bound_right busy_engine) \<and>
   mpfr_exact (bound_top busy_engine) \<and> mpfr_exact (bound_bottom busy_engine) \<and>
   65 \<noteq> GLFW_KEY_LEFT \<and> 65 \<noteq> GLFW_KEY_RIGHT \<and> 65 \<noteq> GLFW_KEY_UP \<and>
   65 \<noteq> GLFW_KEY_DOWN \<and> 65 \<noteq> GLFW_KEY_SPACE \<and>
   length (pixbuf busy_engine) = nat (WIDTH * HEIGHT) \<and>
   length (live_threads busy_engine) = nat THR_MAX_ACTIVE \<and>
   always_ok 0 \<and> always_ok 1 \<and> always_ok 2 \<and> always_ok 3 \<and>
   key_callback always_ok 65 GLFW_PRESS busy_engine =
     start_mandelbrot always_ok (flush_pixels pix_white busy_engine) \<and>
   (\<exists>s'. key_callback always_ok 65 GLFW_PRESS busy_engine = Inr s' \<and>
      bound_left s' = - (5 / 2) \<and> bound_right s' = 1 \<and> bound_top s' = 1 \<and> bound_bottom s' = - 1 \<and>
      pixbuf s' = white_raster \<and>
      live_threads s' = [1, 1, 1, 1] \<and>
      calls s' = [FlushPixels pix_white,
                  PthreadCancel 0, PthreadCancel 1, PthreadCancel 2, PthreadCancel 3,
                  PthreadCreate 0 (strip 0), PthreadCreate 1 (strip 1),
                  PthreadCreate 2 (strip 2), PthreadCreate 3 (strip 3)])"
proof -
  have e: "mpfr_exact (bound_left busy_engine)" "mpfr_exact (bound_right busy_engine)"
    "mpfr_exact (bound_top busy_engine)" "mpfr_exact (bound_bottom busy_engine)"
    by (simp_all add: busy_engine_def init_engine_def default_bounds_exact)
  have k: "65 \<noteq> GLFW_KEY_LEFT" "65 \<noteq> GLFW_KEY_RIGHT" "65 \<noteq> GLFW_KEY_UP"
    "65 \<noteq> GLFW_KEY_DOWN" "65 \<noteq> GLFW_KEY_SPACE"
    by (simp_all add: GLFW_KEY_LEFT_def GLFW_KEY_RIGHT_def GLFW_KEY_UP_def GLFW_KEY_DOWN_def
        GLFW_KEY_SPACE_def)
  have l: "length (pixbuf busy_engine) = nat (WIDTH * HEIGHT)"
    "length (live_threads busy_engine) = nat THR_MAX_ACTIVE"
    by (simp_all add: busy_engine_def init_engine_def THR_MAX_ACTIVE_def)
  have a: "always_ok 0 \<and> always_ok 1 \<and> always_ok 2 \<and> always_ok 3"
    by (simp add: always_ok_def)
  have v: "bound_left busy_engine = - (5 / 2)" "bound_right busy_engine = 1"
    "bound_top busy_engine = 1" "bound_bottom busy_engine = - 1" "calls busy_engine = []"
    "live_slots busy_engine = [0, 1, 2, 3]"
    by (simp_all add: busy_engine_def init_engine_def default_bounds live_slots_def
        eval_nat_numeral)
  note t = other_key_restarts [OF e k l all_always_ok]
  from t have 1: "key_callback always_ok 65 GLFW_PRESS busy_engine =
          start_mandelbrot always_ok (flush_pixels pix_white busy_engine)"
    by (rule conjunct1)
  from t [THEN conjunct2]
  have 2: "(\<exists>s'. key_callback always_ok 65 GLFW_PRESS busy_engine = Inr s' \<and>
           bound_left s' = - (5 / 2) \<and> bound_right s' = 1 \<and> bound_top s' = 1 \<and>
           bound_bottom s' = - 1 \<and>
           pixbuf s' = white_raster \<and>
           live_threads s' = [1, 1, 1, 1] \<and>
           calls s' = [FlushPixels pix_white,
                  PthreadCancel 0, PthreadCancel 1, PthreadCancel 2, PthreadCancel 3,
                  PthreadCreate 0 (strip 0), PthreadCreate 1 (strip 1),
                  PthreadCreate 2 (strip 2), PthreadCreate 3 (strip 3)])"
    by (simp add: v creates_def)
  from e k l a 1 2 show ?thesis by (simp only: simp_thms)
qed

section \<open>The slot table\<close>

text \<open>
  \<open>slot_inv\<close> says that the count equals the number of set flags. The cancellation section
  keeps it; the dispatch section keeps it when the flag was clear, which the cancel loop
  before it ensures; the completion section of a worker keeps it exactly when the worker's
  flag is still set. \<open>worker_finishes i\<close> is the worker thread created with \<open>strip i\<close> running
  to its end, and \<open>slot_table\<close> the flags together with the count.
\<close>

definition slot_inv :: "engine \<Rightarrow> bool" where
  "slot_inv s \<longleftrightarrow> num_live_threads s = count_live s"

definition slot_table :: "engine \<Rightarrow> int list \<times> int" where
  "slot_table s = (live_threads s, num_live_threads s)"

definition worker_finishes :: "int \<Rightarrow> engine \<Rightarrow> fatal + engine" where
  "worker_finishes i s = Inr (compute_mandelbrot (strip i) s)"

lemma count_update:
  "i < length xs \<Longrightarrow>
   int (length (filter P (xs[i := v]))) =
     int (length (filter P xs)) - of_bool (P (xs ! i)) + of_bool (P v)"
proof (induction xs arbitrary: i)
  case Nil
  then show ?case by simp
next
  case (Cons x xs)
  show ?case
  proof (cases i)
    case 0
    then show ?thesis by simp
  next
    case (Suc j)
    with Cons.prems have "j < length xs" by simp
    from Cons.IH [OF this] show ?thesis by (simp add: Suc)
  qed
qed

lemma cancel_slot_inv:
  assumes "slot_inv s" "nat i < length (live_threads s)"
  shows "slot_inv (cancel_slot i s)"
  using assms count_update [of "nat i" "live_threads s" "\<lambda>f. f \<noteq> 0" 0]
  by (simp add: slot_inv_def count_live_def cancel_slot_def)

lemma claim_slot_inv:
  assumes "slot_inv s" "nat i < length (live_threads s)" "live_threads s ! nat i = 0"
  shows "slot_inv (claim_slot i s)"
  using assms count_update [of "nat i" "live_threads s" "\<lambda>f. f \<noteq> 0" 1]
  by (simp add: slot_inv_def count_live_def claim_slot_def)

lemma release_slot_inv:
  assumes "slot_inv s" "nat i < length (live_threads s)"
  shows "slot_inv (release_slot i s) \<longleftrightarrow> live_threads s ! nat i \<noteq> 0"
  using assms count_update [of "nat i" "live_threads s" "\<lambda>f. f \<noteq> 0" 0]
  by (simp add: slot_inv_def count_live_def release_slot_def)

lemma start_mandelbrot_inv:
  assumes "\<forall>i. 0 \<le> i \<and> i < THR_MAX_ACTIVE \<longrightarrow> ok i"
    and "slot_inv s" "length (live_threads s) = 4"
  shows "\<exists>s'. start_mandelbrot ok s = Inr s' \<and> slot_inv s'"
  using start_mandelbrot_effect [OF assms(1), of s] assms(2,3)
  by (auto simp: slot_inv_def count_live_def)

lemma compute_mandelbrot_slots:
  "live_threads (compute_mandelbrot p s) =
     (if 0 \<le> thr_index p then (live_threads s)[nat (thr_index p) := 0] else live_threads s)"
  "num_live_threads (compute_mandelbrot p s) =
     (if 0 \<le> thr_index p then num_live_threads s - 1 else num_live_threads s)"
  by (simp_all add: compute_mandelbrot_def Let_def release_slot_def)

text \<open>
  C10. The equality of the count and the number of set flags is what the slot table is
  meant to keep, and the cancellation sections of \<open>start_mandelbrot\<close> and \<open>main\<close> test the
  flag before they decrement. The completion section of \<open>compute_mandelbrot\<close> does not.
  \<open>pthread_cancel\<close> only requests cancellation: the program never changes the cancellation
  type from deferred, and between the \<open>printf\<close> at the top of \<open>compute_mandelbrot\<close> and its end
  there is no cancellation point (\<open>pthread_mutex_lock\<close> is none), so a worker cancelled by a
  restart still reaches its completion section. In the run below \<open>main\<close> starts the workers,
  a press of the space key restarts, and then the old and the new worker of slot 0 both
  finish: three flags are set and the count is 2.
\<close>

theorem cancelled_worker_completion_drifts:
  "map_sum id slot_table
     (and_then
        (and_then
           (and_then (main_start always_ok)
              (key_callback always_ok GLFW_KEY_SPACE GLFW_PRESS))
           (worker_finishes 0))
        (worker_finishes 0)) =
   Inr ([0, 1, 1, 1], 2)"
proof -
  from main_start_effect obtain s1 where s1:
    "main_start always_ok = Inr s1" "live_threads s1 = [1, 1, 1, 1]" "num_live_threads s1 = 4"
    by blast
  have c1: "count_live s1 = 4" by (simp add: count_live_def s1)
  from key_callback_calls [OF all_always_ok, of GLFW_KEY_SPACE s1] obtain s2 where s2:
    "key_callback always_ok GLFW_KEY_SPACE GLFW_PRESS s1 = Inr s2"
    "live_threads s2 = [1, 1, 1, 1]" "num_live_threads s2 = 4"
    using s1 c1 by auto
  have t: "thr_index (strip 0) = 0" by (simp add: strip_def)
  show ?thesis
    by (simp add: s1 s2 and_then_simps worker_finishes_def slot_table_def
        compute_mandelbrot_slots t)
qed

section \<open>What a worker writes\<close>

text \<open>
  \<open>scan_order\<close> lists the pixels of a region in the order of the two loops: rows from
  \<open>bottom\<close> to \<open>top\<close>, each from \<open>left\<close> to \<open>right\<close>. \<open>paint vp cs\<close> stores the colour of every pixel
  of \<open>cs\<close>. \<open>scan_list\<close> is the scan along a list of pixels, with the flag of \<open>row_loop\<close>; the
  two loops are shown to be this scan along \<open>scan_order\<close>.
\<close>

definition row_cells :: "int \<Rightarrow> int \<Rightarrow> int \<Rightarrow> (int \<times> int) list" where
  "row_cells right y x = map (\<lambda>x'. (x', y)) [x..right]"

definition scan_order :: "int \<Rightarrow> int \<Rightarrow> int \<Rightarrow> int \<Rightarrow> (int \<times> int) list" where
  "scan_order left right top' bottom = concat (map (\<lambda>y. row_cells right y left) [bottom..top'])"

definition cell_index :: "int \<times> int \<Rightarrow> nat" where
  "cell_index c = pix_index (fst c) (snd c)"

definition paint_cell :: "'a viewport_scheme \<Rightarrow> int \<times> int \<Rightarrow> pixel list \<Rightarrow> pixel list" where
  "paint_cell vp c buf = buf[cell_index c := get_color (escape_iter vp (fst c) (snd c))]"

definition paint :: "'a viewport_scheme \<Rightarrow> (int \<times> int) list \<Rightarrow> pixel list \<Rightarrow> pixel list" where
  "paint vp cs buf = fold (paint_cell vp) cs buf"

fun scan_list :: "'a viewport_scheme \<Rightarrow> (int \<times> int) list \<Rightarrow> pixel list \<Rightarrow> bool \<times> pixel list" where
  "scan_list vp [] buf = (False, buf)"
| "scan_list vp (c # cs) buf =
     (if buf ! cell_index c \<noteq> pix_white then (True, buf)
      else scan_list vp cs (paint_cell vp c buf))"

lemma row_loop_scan_list:
  "row_loop vp right y x buf = scan_list vp (row_cells right y x) buf"
proof (induction vp right y x buf rule: row_loop.induct)
  case (1 vp right y x buf)
  show ?case
  proof (cases "x \<le> right")
    case False
    then show ?thesis
      by (subst row_loop.simps) (simp add: row_cells_def)
  next
    case True
    then have u: "row_cells right y x = (x, y) # row_cells right y (x + 1)"
      by (simp add: row_cells_def upto_rec1)
    show ?thesis
    proof (cases "buf ! pix_index x y \<noteq> pix_white")
      case nw: True
      then show ?thesis
        using True by (subst row_loop.simps) (simp add: u cell_index_def)
    next
      case w: False
      have "row_loop vp right y x buf =
              row_loop vp right y (x + 1) (buf[pix_index x y := get_color (escape_iter vp x y)])"
        using True w by (subst row_loop.simps) simp
      also have "\<dots> = scan_list vp (row_cells right y (x + 1))
                          (buf[pix_index x y := get_color (escape_iter vp x y)])"
        using True w by (intro "1.IH") simp_all
      finally show ?thesis
        using w by (simp add: u cell_index_def paint_cell_def)
    qed
  qed
qed

lemma scan_list_append:
  "scan_list vp (cs @ ds) buf =
     (case scan_list vp cs buf of (True, b) \<Rightarrow> (True, b) | (False, b) \<Rightarrow> scan_list vp ds b)"
  by (induction cs arbitrary: buf) simp_all

lemma col_loop_scan_list:
  "col_loop vp left right top' y buf =
     snd (scan_list vp (concat (map (\<lambda>y. row_cells right y left) [y..top'])) buf)"
proof (induction vp left right top' y buf rule: col_loop.induct)
  case (1 vp left right top' y buf)
  show ?case
  proof (cases "y \<le> top'")
    case False
    then show ?thesis by (subst col_loop.simps) simp
  next
    case True
    then have u: "[y..top'] = y # [y + 1..top']" by (simp add: upto_rec1)
    obtain fl b where r: "scan_list vp (row_cells right y left) buf = (fl, b)"
      by (cases "scan_list vp (row_cells right y left) buf")
    show ?thesis
    proof (cases fl)
      case True
      then show ?thesis
        using \<open>y \<le> top'\<close> r
        by (subst col_loop.simps) (simp add: u row_loop_scan_list scan_list_append)
    next
      case False
      have "col_loop vp left right top' y buf = col_loop vp left right top' (y + 1) b"
        using \<open>y \<le> top'\<close> r False by (subst col_loop.simps) (simp add: row_loop_scan_list)
      also have "\<dots> = snd (scan_list vp (concat (map (\<lambda>y. row_cells right y left) [y + 1..top'])) b)"
        using \<open>y \<le> top'\<close> r False
        using "1.IH" by (auto simp: row_loop_scan_list)
      finally show ?thesis
        using r False by (simp add: u scan_list_append)
    qed
  qed
qed

lemma compute_mandelbrot_sub_scan:
  "compute_mandelbrot_sub vp left right top' bottom buf =
     snd (scan_list vp (scan_order left right top' bottom) buf)"
  by (simp add: compute_mandelbrot_sub_def col_loop_scan_list scan_order_def)

lemma paint_cell_other: "k \<noteq> cell_index c \<Longrightarrow> paint_cell vp c buf ! k = buf ! k"
  by (simp add: paint_cell_def)

lemma paint_other: "k \<notin> cell_index ` set cs \<Longrightarrow> paint vp cs buf ! k = buf ! k"
  unfolding paint_def by (induction cs arbitrary: buf) (simp_all add: paint_cell_other)

lemma scan_list_other:
  "k \<notin> cell_index ` set cs \<Longrightarrow> snd (scan_list vp cs buf) ! k = buf ! k"
  by (induction cs arbitrary: buf) (simp_all add: paint_cell_other)


lemma scan_list_complete:
  assumes "distinct (map cell_index cs)"
    and "\<forall>d \<in> set cs. buf ! cell_index d = pix_white"
  shows "scan_list vp cs buf = (False, paint vp cs buf)"
  using assms
proof (induction cs arbitrary: buf)
  case Nil
  then show ?case by (simp add: paint_def)
next
  case (Cons d cs)
  let ?b = "paint_cell vp d buf"
  have d: "cell_index d \<notin> cell_index ` set cs" using Cons.prems(1) by auto
  have 1: "distinct (map cell_index cs)" using Cons.prems(1) by simp
  have 2: "\<forall>e \<in> set cs. ?b ! cell_index e = pix_white"
  proof
    fix e assume e: "e \<in> set cs"
    then have "cell_index e \<noteq> cell_index d" using d by (metis imageI)
    then show "?b ! cell_index e = pix_white"
      using Cons.prems(2) e by (simp add: paint_cell_other)
  qed
  from Cons.IH [OF 1 2] Cons.prems(2) show ?case by (simp add: paint_def)
qed

lemma set_row_cells: "set (row_cells right y x) = {(x', y') . x \<le> x' \<and> x' \<le> right \<and> y' = y}"
  by (auto simp: row_cells_def)

lemma set_scan_order:
  "set (scan_order left right top' bottom) =
     {(x, y). left \<le> x \<and> x \<le> right \<and> bottom \<le> y \<and> y \<le> top'}"
  by (auto simp: scan_order_def set_row_cells)

lemma cell_index_inj:
  assumes "0 \<le> x" "x < WIDTH" "0 \<le> x'" "x' < WIDTH" "0 \<le> y" "0 \<le> y'"
    and "pix_index x y = pix_index x' y'"
  shows "x = x' \<and> y = y'"
proof -
  have e: "y * 1366 + x = y' * 1366 + x'"
    using assms by (simp add: pix_index_def WIDTH_def)
  have b: "x < 1366" "x' < 1366" using assms(2,4) by (simp_all add: WIDTH_def)
  have "y = y'"
  proof (rule ccontr)
    assume "y \<noteq> y'"
    then consider "y + 1 \<le> y'" | "y' + 1 \<le> y" by linarith
    then show False
    proof cases
      case 1
      then have "y * 1366 + 1366 \<le> y' * 1366" by simp
      with e b assms(1,3) show False by linarith
    next
      case 2
      then have "y' * 1366 + 1366 \<le> y * 1366" by simp
      with e b assms(1,3) show False by linarith
    qed
  qed
  with e show ?thesis by simp
qed

lemma distinct_row_cells:
  assumes "0 \<le> x" "right < WIDTH" "0 \<le> y"
  shows "distinct (map cell_index (row_cells right y x))"
proof -
  have "inj_on (\<lambda>x'. cell_index (x', y)) (set [x..right])"
  proof (rule inj_onI)
    fix a b assume "a \<in> set [x..right]" "b \<in> set [x..right]"
      and "cell_index (a, y) = cell_index (b, y)"
    then show "a = b"
      using assms cell_index_inj [of a b y y] by (simp add: cell_index_def)
  qed
  then show ?thesis
    by (simp add: row_cells_def distinct_map comp_def)
qed

lemma distinct_rows:
  assumes "0 \<le> left" "right < WIDTH"
  shows "0 \<le> y \<Longrightarrow>
    distinct (map cell_index (concat (map (\<lambda>y. row_cells right y left) [y..top'])))"
proof (induction y top' rule: upto.induct)
  case (1 y top')
  show ?case
  proof (cases "y \<le> top'")
    case False
    then show ?thesis by simp
  next
    case True
    then have u: "[y..top'] = y # [y + 1..top']" by (simp add: upto_rec1)
    have r: "distinct (map cell_index (row_cells right y left))"
      by (rule distinct_row_cells [OF assms(1) assms(2) "1.prems"])
    have rest: "distinct (map cell_index (concat (map (\<lambda>y. row_cells right y left) [y + 1..top'])))"
      using True "1.prems" by (intro "1.IH") simp_all
    have disj: "cell_index ` set (row_cells right y left) \<inter>
          cell_index ` set (concat (map (\<lambda>y. row_cells right y left) [y + 1..top'])) = {}"
    proof (rule ccontr)
      assume "\<not> ?thesis"
      then obtain x x' y' where
        "left \<le> x" "x \<le> right" "left \<le> x'" "x' \<le> right" "y + 1 \<le> y'"
        "pix_index x y = pix_index x' y'"
        by (auto simp: set_row_cells cell_index_def)
      with cell_index_inj [of x x' y y'] assms "1.prems" show False by simp
    qed
    show ?thesis
      using r rest disj by (simp add: u)
  qed
qed

lemma distinct_scan_order:
  assumes "0 \<le> left" "right < WIDTH" "0 \<le> bottom"
  shows "distinct (map cell_index (scan_order left right top' bottom))"
  unfolding scan_order_def using assms by (intro distinct_rows)



lemma white_raster_nth: "k < 1049088 \<Longrightarrow> white_raster ! k = pix_white"
  by (simp add: white_raster_def WIDTH_def HEIGHT_def)

lemma length_white_raster: "length white_raster = 1049088"
  by (simp add: white_raster_def WIDTH_def HEIGHT_def)


section \<open>The strips of a dispatch\<close>

definition pixel_at :: "int \<Rightarrow> int \<Rightarrow> engine \<Rightarrow> pixel" where
  "pixel_at x y s = pixbuf s ! pix_index x y"

lemma strip_width: "WIDTH sdiv THR_MAX_ACTIVE = 341"
  by (simp add: WIDTH_def THR_MAX_ACTIVE_def signed_divide_int_def)

lemma pixbuf_compute_mandelbrot:
  "pixbuf (compute_mandelbrot p s) =
     compute_mandelbrot_sub s (p_left p) (p_right p) (p_top p) (p_bottom p) (pixbuf s)"
  by (simp add: compute_mandelbrot_def Let_def release_slot_def)

lemma worker_leaves_gap:
  assumes "i = 0 \<or> i = 1 \<or> i = 2 \<or> i = 3" and "0 \<le> y" and "1364 \<le> x" "x < WIDTH"
  shows "pixel_at x y (compute_mandelbrot (strip i) s) = pixel_at x y s"
proof -
  have "pix_index x y \<notin> cell_index `
          set (scan_order (p_left (strip i)) (p_right (strip i)) (p_top (strip i)) (p_bottom (strip i)))"
  proof
    assume "pix_index x y \<in> cell_index `
          set (scan_order (p_left (strip i)) (p_right (strip i)) (p_top (strip i)) (p_bottom (strip i)))"
    then obtain x' y' where c: "i * 341 \<le> x'" "x' \<le> (i + 1) * 341 - 1" "0 \<le> y'"
      "pix_index x y = pix_index x' y'"
      by (auto simp: set_scan_order strip_def strip_width cell_index_def)
    from c(1,2) assms(1) have "0 \<le> x'" "x' \<le> 1363" by auto
    with cell_index_inj [of x x' y y'] assms(2-4) c(3,4) show False
      by (simp add: WIDTH_def)
  qed
  then show ?thesis
    by (simp add: pixel_at_def pixbuf_compute_mandelbrot compute_mandelbrot_sub_scan scan_list_other)
qed

text \<open>
  C1. The four strips have the width \<open>WIDTH / THR_MAX_ACTIVE = 341\<close> and end at column 1363:
  the division drops the remainder 2, so the columns 1364 and 1365 belong to no strip. The
  run below is \<open>main\<close> starting the workers on the white raster and all four workers
  running to their end; the pixel \<open>(1364, 0)\<close> is still \<open>pix_white\<close>.
\<close>

theorem strips_leave_columns_white:
  "map_sum id (pixel_at 1364 0)
     (and_then
        (and_then
           (and_then
              (and_then (main_start always_ok) (worker_finishes 0))
              (worker_finishes 1))
           (worker_finishes 2))
        (worker_finishes 3)) =
   Inr pix_white"
proof -
  from main_start_effect obtain s1 where s1:
    "main_start always_ok = Inr s1" "pixbuf s1 = white_raster"
    by blast
  have "pixel_at 1364 0 s1 = pix_white"
    by (simp add: pixel_at_def s1 pix_index_def WIDTH_def white_raster_nth)
  then show ?thesis
    by (simp add: s1 and_then_simps worker_finishes_def worker_leaves_gap WIDTH_def)
qed

section \<open>What the evaluator reports\<close>

text \<open>
  \<open>sq_modulus cur\<close> is the value the loop compares with the threshold, \<open>mbr_update inp cur\<close>
  the value of \<open>cur\<close> after one round of the loop body: the rounded \<open>zr\<^sup>2 - zi\<^sup>2 + cr\<close>, with
  \<open>zr\<^sup>2\<close> recovered from the sum as the program does, and the rounded \<open>2 zr zi + ci\<close>.
  \<open>img_zero\<close> is the starting value of \<open>cur\<close>.
\<close>

definition sq_modulus :: "img \<Rightarrow> mpfr" where
  "sq_modulus cur =
     mpfr_add (mpfr_mul (img_r cur) (img_r cur)) (mpfr_mul (img_i cur) (img_i cur))"

definition mbr_update :: "img \<Rightarrow> img \<Rightarrow> img" where
  "mbr_update inp cur =
     (let dist2 = mpfr_mul (img_i cur) (img_i cur);
          rt = mpfr_add (mpfr_sub (mpfr_sub (sq_modulus cur) dist2) dist2) (img_r inp);
          cur_i = mpfr_add (mpfr_mul_d (mpfr_mul (img_r cur) (img_i cur)) 2) (img_i inp)
      in \<lparr>img_r = mpfr_set rt, img_i = cur_i\<rparr>)"

definition img_zero :: img where
  "img_zero = \<lparr>img_r = mpfr_set_d 0, img_i = mpfr_set_d 0\<rparr>"

lemma escape_loop_step:
  "escape_loop inp cur i =
     (if i < MBR_MAX_ITERATIONS then
        if MBR_DIVERGE_THRESHOLD \<le> sq_modulus cur then i
        else escape_loop inp (mbr_update inp cur) (i + 1)
      else i)"
  by (subst escape_loop.simps)
     (simp add: Let_def sq_modulus_def mbr_update_def mpfr_cmp_d_def)

lemma escape_loop_spec:
  assumes "i \<le> MBR_MAX_ITERATIONS"
  shows "i \<le> escape_loop inp cur i \<and> escape_loop inp cur i \<le> MBR_MAX_ITERATIONS \<and>
         (\<forall>k. i + int k < escape_loop inp cur i \<longrightarrow>
              sq_modulus ((mbr_update inp ^^ k) cur) < MBR_DIVERGE_THRESHOLD) \<and>
         (escape_loop inp cur i < MBR_MAX_ITERATIONS \<longrightarrow>
              MBR_DIVERGE_THRESHOLD \<le>
                sq_modulus ((mbr_update inp ^^ nat (escape_loop inp cur i - i)) cur))"
  using assms
proof (induction "nat (MBR_MAX_ITERATIONS - i)" arbitrary: cur i)
  case 0
  then have "\<not> i < MBR_MAX_ITERATIONS" by simp
  then have "escape_loop inp cur i = i" by (subst escape_loop_step) simp
  with 0 show ?case by simp
next
  case (Suc m)
  then have lt: "i < MBR_MAX_ITERATIONS" by linarith
  show ?case
  proof (cases "MBR_DIVERGE_THRESHOLD \<le> sq_modulus cur")
    case True
    with lt have "escape_loop inp cur i = i" by (subst escape_loop_step) simp
    with True lt show ?thesis by simp
  next
    case nd: False
    let ?n = "escape_loop inp (mbr_update inp cur) (i + 1)"
    have e: "escape_loop inp cur i = ?n"
      using lt nd by (subst escape_loop_step) simp
    have m: "m = nat (MBR_MAX_ITERATIONS - (i + 1))" using Suc.hyps(2) by linarith
    have le: "i + 1 \<le> MBR_MAX_ITERATIONS" using lt by simp
    note ih = Suc.hyps(1) [OF m le, of "mbr_update inp cur"]
    have below: "sq_modulus ((mbr_update inp ^^ k) cur) < MBR_DIVERGE_THRESHOLD"
      if "i + int k < ?n" for k
    proof (cases k)
      case 0
      with nd show ?thesis by simp
    next
      case (Suc j)
      with that have "i + 1 + int j < ?n" by simp
      with ih have "sq_modulus ((mbr_update inp ^^ j) (mbr_update inp cur)) < MBR_DIVERGE_THRESHOLD"
        by blast
      then show ?thesis by (simp add: Suc funpow_swap1)
    qed
    have above: "MBR_DIVERGE_THRESHOLD \<le> sq_modulus ((mbr_update inp ^^ nat (?n - i)) cur)"
      if "?n < MBR_MAX_ITERATIONS"
    proof -
      from ih have "i + 1 \<le> ?n" by (rule conjunct1)
      then have "nat (?n - i) = Suc (nat (?n - (i + 1)))" by linarith
      with ih that show ?thesis by (simp add: funpow_swap1)
    qed
    from ih below above show ?thesis unfolding e by simp
  qed
qed

lemma rndd_zero: "rndd 0 = 0"
  by (simp add: rndd_def round_down_def)

lemma rndd_consts2:
  "rndd (7 / 2) = 7 / 2" "rndd 2 = 2" "rndd (25 / 4) = 25 / 4" "rndd (29 / 4) = 29 / 4"
  using rndd_dyadic [of 7 "- 1"] rndd_dyadic [of 2 0] rndd_dyadic [of 25 "- 2"]
    rndd_dyadic [of 29 "- 2"]
  by (simp_all add: power_int_minus)

lemma double_consts:
  "double_of_int 0 = 0" "double_of_int 767 = 767" "double_of_int 1365 = 1365"
  "double_div 0 1365 = 0" "double_div 767 767 = 1"
  by code_simp+

lemma img_zero_val: "img_zero = \<lparr>img_r = 0, img_i = 0\<rparr>"
  by (simp add: img_zero_def mpfr_set_d_def rndd_zero)

lemma sq_modulus_zero: "sq_modulus \<lparr>img_r = 0, img_i = 0\<rparr> = 0"
  by (simp add: sq_modulus_def mpfr_mul_def mpfr_add_def rndd_zero)

lemma sq_modulus_img_zero: "sq_modulus img_zero = 0"
  by (simp add: img_zero_val sq_modulus_zero)

lemma pixel_inp_top_left:
  "pixel_inp default_viewport 0 767 = \<lparr>img_r = - (5 / 2), img_i = 1\<rparr>"
  by (simp add: pixel_inp_def Let_def default_bounds WIDTH_def HEIGHT_def double_consts
      mpfr_sub_def mpfr_mul_d_def mpfr_add_def rndd_consts rndd_consts2 rndd_zero)

lemma mbr_update_first: "mbr_update inp img_zero = \<lparr>img_r = rndd (rndd (img_r inp)), img_i = rndd (img_i inp)\<rparr>"
  by (simp add: mbr_update_def Let_def img_zero_val sq_modulus_zero mpfr_mul_def
      mpfr_mul_d_def mpfr_add_def mpfr_sub_def mpfr_set_def rndd_zero)

lemma sq_modulus_top_left: "sq_modulus \<lparr>img_r = - (5 / 2), img_i = 1\<rparr> = 29 / 4"
  by (simp add: sq_modulus_def mpfr_mul_def mpfr_add_def rndd_consts rndd_consts2)

lemma escape_iter_top_left: "escape_iter default_viewport 0 767 = 1"
proof -
  have 1: "escape_loop \<lparr>img_r = - (5 / 2), img_i = 1\<rparr> \<lparr>img_r = - (5 / 2), img_i = 1\<rparr> 1 = 1"
    by (subst escape_loop_step)
       (simp add: sq_modulus_top_left MBR_MAX_ITERATIONS_def MBR_DIVERGE_THRESHOLD_def)
  have "escape_loop \<lparr>img_r = - (5 / 2), img_i = 1\<rparr> img_zero 0 = 1"
    by (subst escape_loop_step)
       (simp add: sq_modulus_img_zero mbr_update_first rndd_consts 1 MBR_MAX_ITERATIONS_def
          MBR_DIVERGE_THRESHOLD_def)

  then show ?thesis
    by (simp add: escape_iter_def pixel_inp_top_left img_zero_def)
qed

text \<open>
  C2, as stated, fails. With the default viewport the pixel \<open>(0, 767)\<close> maps to
  \<open>(-2.5, 1)\<close>, but the index reported for it is 1, not 0: the loop tests the squared modulus
  of \<open>cur\<close> before it updates \<open>cur\<close>, so round 0 tests the starting value \<open>(0, 0)\<close>.
\<close>

theorem top_left_pixel_reported_at_1:
  "pixel_inp default_viewport 0 767 = \<lparr>img_r = - (5 / 2), img_i = 1\<rparr> \<and>
   escape_iter default_viewport 0 767 = 1 \<and>
   escape_iter default_viewport 0 767 \<noteq> 0"
  by (simp add: pixel_inp_top_left escape_iter_top_left)

text \<open>
  C2, amended. For every pixel the evaluator starts from \<open>z = (0, 0)\<close> and in each round
  first tests the squared modulus of the current \<open>z\<close> against the threshold and then
  applies the update. The index it reports is the number of updates applied before the
  test succeeded: it is at least 1 and at most \<open>MBR_MAX_ITERATIONS\<close>, every \<open>z\<close> after fewer
  updates is below the threshold, and if the index is below \<open>MBR_MAX_ITERATIONS\<close> then \<open>z\<close>
  after that many updates has reached the threshold. For the default viewport the pixel
  \<open>(0, 767)\<close> maps to \<open>(-2.5, 1)\<close> and is reported with index 1.
\<close>

theorem escape_iter_reports:
  "0 < escape_iter vp x y \<and> escape_iter vp x y \<le> MBR_MAX_ITERATIONS \<and>
   (\<forall>k. int k < escape_iter vp x y \<longrightarrow>
      sq_modulus ((mbr_update (pixel_inp vp x y) ^^ k) img_zero) < MBR_DIVERGE_THRESHOLD) \<and>
   (escape_iter vp x y < MBR_MAX_ITERATIONS \<longrightarrow>
      MBR_DIVERGE_THRESHOLD \<le>
        sq_modulus ((mbr_update (pixel_inp vp x y) ^^ nat (escape_iter vp x y)) img_zero)) \<and>
   pixel_inp default_viewport 0 767 = \<lparr>img_r = - (5 / 2), img_i = 1\<rparr> \<and>
   escape_iter default_viewport 0 767 = 1"
proof -
  let ?n = "escape_loop (pixel_inp vp x y) img_zero 0"
  have n: "escape_iter vp x y = ?n" by (simp add: escape_iter_def img_zero_def)
  have m0: "(0::int) \<le> MBR_MAX_ITERATIONS" by (simp add: MBR_MAX_ITERATIONS_def)
  note sp = escape_loop_spec [OF m0, of "pixel_inp vp x y" img_zero]
  have pos: "0 < ?n"
  proof (rule ccontr)
    assume "\<not> 0 < ?n"
    with sp have z: "?n = 0" by simp
    then have "?n < MBR_MAX_ITERATIONS" by (simp add: MBR_MAX_ITERATIONS_def)
    with sp z have "MBR_DIVERGE_THRESHOLD \<le> sq_modulus img_zero" by simp
    then show False by (simp add: sq_modulus_img_zero MBR_DIVERGE_THRESHOLD_def)
  qed
  from sp pos have g: "0 < escape_iter vp x y \<and> escape_iter vp x y \<le> MBR_MAX_ITERATIONS \<and>
   (\<forall>k. int k < escape_iter vp x y \<longrightarrow>
      sq_modulus ((mbr_update (pixel_inp vp x y) ^^ k) img_zero) < MBR_DIVERGE_THRESHOLD) \<and>
   (escape_iter vp x y < MBR_MAX_ITERATIONS \<longrightarrow>
      MBR_DIVERGE_THRESHOLD \<le>
        sq_modulus ((mbr_update (pixel_inp vp x y) ^^ nat (escape_iter vp x y)) img_zero))"
    unfolding n by simp
  from g pixel_inp_top_left escape_iter_top_left show ?thesis by blast
qed

theorem escape_iter_reports_witness:
  "escape_iter default_viewport 0 767 = 1 \<and>
   int 0 < escape_iter default_viewport 0 767 \<and>
   sq_modulus ((mbr_update (pixel_inp default_viewport 0 767) ^^ 0) img_zero) < MBR_DIVERGE_THRESHOLD \<and>
   escape_iter default_viewport 0 767 < MBR_MAX_ITERATIONS \<and>
   MBR_DIVERGE_THRESHOLD \<le>
     sq_modulus ((mbr_update (pixel_inp default_viewport 0 767) ^^ nat 1) img_zero)"
proof -
  note t = escape_iter_reports [of default_viewport 0 767]
  from t have e: "escape_iter default_viewport 0 767 = 1" by blast
  have lt: "escape_iter default_viewport 0 767 < MBR_MAX_ITERATIONS"
    by (simp add: e MBR_MAX_ITERATIONS_def)
  have p0: "int 0 < escape_iter default_viewport 0 767" by (simp add: e)
  from t p0 have b: "sq_modulus ((mbr_update (pixel_inp default_viewport 0 767) ^^ 0) img_zero)
      < MBR_DIVERGE_THRESHOLD"
    by blast
  from t lt have "MBR_DIVERGE_THRESHOLD \<le>
     sq_modulus ((mbr_update (pixel_inp default_viewport 0 767) ^^ nat (escape_iter default_viewport 0 767)) img_zero)"
    by blast
  then have a: "MBR_DIVERGE_THRESHOLD \<le>
     sq_modulus ((mbr_update (pixel_inp default_viewport 0 767) ^^ nat 1) img_zero)"
    by (simp only: e)
  from e p0 b lt a show ?thesis by (simp only: simp_thms)
qed

section \<open>Pan and zoom\<close>

























section \<open>A completed pass\<close>

text \<open>
  Whatever the key, the bounds that the handler commits are \<open>PBITS\<close>-bit numbers, so the
  bounds are such numbers in every state the program reaches.
\<close>

lemma next_bounds_keeps_exact:
  "mpfr_exact (bound_left (next_bounds key s))" "mpfr_exact (bound_right (next_bounds key s))"
  "mpfr_exact (bound_top (next_bounds key s))" "mpfr_exact (bound_bottom (next_bounds key s))"
  by (simp_all add: next_bounds_def Let_def mpfr_set_def mpfr_exact_rndd split: prod.splits)

text \<open>
  The four strips are 341 columns wide, span the rows 0 to 767, are pairwise disjoint and
  together cover exactly the columns below 1364. A worker that finds its strip white paints
  every pixel of it and changes nothing else. After a pass that starts from the white
  raster, every pixel of the columns below 1364 holds the colour of its escape index and
  the two columns to the right are still white.
\<close>

lemma strip_bounds:
  "p_left (strip i) = i * 341" "p_right (strip i) = i * 341 + 340"
  "p_top (strip i) = 767" "p_bottom (strip i) = 0" "thr_index (strip i) = i"
  by (simp_all add: strip_def strip_width HEIGHT_def algebra_simps)

definition in_strip :: "int \<Rightarrow> int \<Rightarrow> int \<Rightarrow> bool" where
  "in_strip i x y \<longleftrightarrow>
     p_left (strip i) \<le> x \<and> x \<le> p_right (strip i) \<and> p_bottom (strip i) \<le> y \<and> y \<le> p_top (strip i)"

lemma strips_disjoint:
  assumes "in_strip i x y" "in_strip j x y"
  shows "i = j"
  using assms by (simp add: in_strip_def strip_bounds)

lemma strips_union:
  assumes "0 \<le> x" "x < WIDTH" "0 \<le> y" "y < HEIGHT"
  shows "(in_strip 0 x y \<or> in_strip 1 x y \<or> in_strip 2 x y \<or> in_strip 3 x y) \<longleftrightarrow> x < 1364"
  using assms by (simp add: in_strip_def strip_bounds WIDTH_def HEIGHT_def) linarith

lemma set_scan_strip:
  "set (scan_order (p_left (strip i)) (p_right (strip i)) (p_top (strip i)) (p_bottom (strip i))) =
     {(x, y). in_strip i x y}"
  by (auto simp: set_scan_order in_strip_def)

lemma length_paint_cell: "length (paint_cell vp c buf) = length buf"
  by (simp add: paint_cell_def)

lemma length_paint: "length (paint vp cs buf) = length buf"
  unfolding paint_def by (induction cs arbitrary: buf) (simp_all add: length_paint_cell)

lemma paint_Cons: "paint vp (c # cs) buf = paint vp cs (paint_cell vp c buf)"
  by (simp add: paint_def)

lemma paint_at:
  assumes "distinct (map cell_index cs)" "d \<in> set cs" "cell_index d < length buf"
  shows "paint vp cs buf ! cell_index d = get_color (escape_iter vp (fst d) (snd d))"
  using assms
proof (induction cs arbitrary: buf)
  case Nil
  then show ?case by simp
next
  case (Cons c cs)
  show ?case
  proof (cases "d \<in> set cs")
    case True
    have "distinct (map cell_index cs)" using Cons.prems(1) by simp
    moreover have "cell_index d < length (paint_cell vp c buf)"
      using Cons.prems(3) by (simp add: length_paint_cell)
    ultimately show ?thesis
      using True by (simp add: paint_Cons Cons.IH)
  next
    case False
    with Cons.prems(2) have dc: "d = c" by simp
    have "cell_index c \<notin> cell_index ` set cs" using Cons.prems(1) by auto
    then have "paint vp cs (paint_cell vp c buf) ! cell_index c = paint_cell vp c buf ! cell_index c"
      by (rule paint_other)
    also have "\<dots> = get_color (escape_iter vp (fst c) (snd c))"
      using Cons.prems(3) dc by (simp add: paint_cell_def)
    finally show ?thesis by (simp add: paint_Cons dc)
  qed
qed

lemma strip_index_in_raster:
  assumes "i = 0 \<or> i = 1 \<or> i = 2 \<or> i = 3" "in_strip i x y"
  shows "pix_index x y < nat (WIDTH * HEIGHT)"
proof -
  have "0 \<le> x" "x \<le> 1365" "0 \<le> y" "y \<le> 767"
    using assms by (auto simp: in_strip_def strip_bounds)
  then have "0 \<le> y * 1366 + x" "y * 1366 + x < 1366 * 768" by linarith+
  then show ?thesis by (simp add: pix_index_def WIDTH_def HEIGHT_def)
qed

lemma worker_outside_strip:
  assumes "i = 0 \<or> i = 1 \<or> i = 2 \<or> i = 3" "\<not> in_strip i x y" "0 \<le> x" "x < WIDTH" "0 \<le> y"
  shows "pixel_at x y (compute_mandelbrot (strip i) s) = pixel_at x y s"
proof -
  have "pix_index x y \<notin> cell_index `
          set (scan_order (p_left (strip i)) (p_right (strip i)) (p_top (strip i)) (p_bottom (strip i)))"
  proof
    assume "pix_index x y \<in> cell_index `
          set (scan_order (p_left (strip i)) (p_right (strip i)) (p_top (strip i)) (p_bottom (strip i)))"
    then obtain x' y' where c: "in_strip i x' y'" "pix_index x y = pix_index x' y'"
      by (auto simp: set_scan_strip cell_index_def)
    from c(1) assms(1) have "0 \<le> x'" "x' < WIDTH" "0 \<le> y'"
      by (auto simp: in_strip_def strip_bounds WIDTH_def)
    with cell_index_inj [of x x' y y'] assms(3-5) c(2) have "x = x'" "y = y'" by simp_all
    with c(1) assms(2) show False by simp
  qed
  then show ?thesis
    by (simp add: pixel_at_def pixbuf_compute_mandelbrot compute_mandelbrot_sub_scan scan_list_other)
qed

lemma worker_paints_strip:
  assumes i: "i = 0 \<or> i = 1 \<or> i = 2 \<or> i = 3"
    and white: "\<forall>x y. in_strip i x y \<longrightarrow> pixel_at x y s = pix_white"
    and len: "length (pixbuf s) = nat (WIDTH * HEIGHT)"
    and xy: "in_strip i x y"
  shows "pixel_at x y (compute_mandelbrot (strip i) s) = get_color (escape_iter s x y)"
proof -
  let ?cs = "scan_order (p_left (strip i)) (p_right (strip i)) (p_top (strip i)) (p_bottom (strip i))"
  have d: "distinct (map cell_index ?cs)"
    using i by (intro distinct_scan_order) (auto simp: strip_bounds WIDTH_def)
  have w: "\<forall>c \<in> set ?cs. pixbuf s ! cell_index c = pix_white"
    using white by (auto simp: set_scan_strip pixel_at_def cell_index_def)
  have "pixbuf (compute_mandelbrot (strip i) s) = paint s ?cs (pixbuf s)"
    by (simp add: pixbuf_compute_mandelbrot compute_mandelbrot_sub_scan scan_list_complete [OF d w])
  moreover have "(x, y) \<in> set ?cs" using xy by (simp add: set_scan_strip)
  moreover have "cell_index (x, y) < length (pixbuf s)"
    using strip_index_in_raster [OF i xy] len by (simp add: cell_index_def)
  ultimately show ?thesis
    using paint_at [OF d, of "(x, y)" "pixbuf s" s] by (simp add: pixel_at_def cell_index_def)
qed

lemma length_scan_list: "length (snd (scan_list vp cs buf)) = length buf"
  by (induction cs arbitrary: buf) (simp_all add: length_paint_cell)

lemma compute_mandelbrot_frame:
  "bound_left (compute_mandelbrot p s) = bound_left s"
  "bound_right (compute_mandelbrot p s) = bound_right s"
  "bound_top (compute_mandelbrot p s) = bound_top s"
  "bound_bottom (compute_mandelbrot p s) = bound_bottom s"
  "length (pixbuf (compute_mandelbrot p s)) = length (pixbuf s)"
  by (simp_all add: compute_mandelbrot_def Let_def release_slot_def compute_mandelbrot_sub_scan
      length_scan_list)

definition same_bounds :: "'a viewport_scheme \<Rightarrow> 'b viewport_scheme \<Rightarrow> bool" where
  "same_bounds v v' \<longleftrightarrow>
     bound_left v = bound_left v' \<and> bound_right v = bound_right v' \<and>
     bound_top v = bound_top v' \<and> bound_bottom v = bound_bottom v'"

lemma escape_iter_bounds: "same_bounds v v' \<Longrightarrow> escape_iter v x y = escape_iter v' x y"
  by (simp add: same_bounds_def escape_iter_def pixel_inp_def)

definition covered :: "int \<Rightarrow> int \<Rightarrow> int \<Rightarrow> bool" where
  "covered k x y \<longleftrightarrow> (\<exists>j. 0 \<le> j \<and> j < k \<and> in_strip j x y)"

definition painted_upto :: "int \<Rightarrow> engine \<Rightarrow> bool" where
  "painted_upto k s \<longleftrightarrow>
     same_bounds s default_viewport \<and> length (pixbuf s) = nat (WIDTH * HEIGHT) \<and>
     (\<forall>x y. 0 \<le> x \<and> x < WIDTH \<and> 0 \<le> y \<and> y < HEIGHT \<longrightarrow>
        pixel_at x y s =
          (if covered k x y then get_color (escape_iter default_viewport x y) else pix_white))"

lemma in_strip_raster:
  assumes "i = 0 \<or> i = 1 \<or> i = 2 \<or> i = 3" "in_strip i x y"
  shows "0 \<le> x \<and> x < WIDTH \<and> 0 \<le> y \<and> y < HEIGHT"
  using assms by (auto simp: in_strip_def strip_bounds WIDTH_def HEIGHT_def)

lemma covered_step:
  "covered (k + 1) x y \<longleftrightarrow> covered k x y \<or> (0 \<le> k \<and> in_strip k x y)"
proof
  assume "covered (k + 1) x y"
  then obtain j where j: "0 \<le> j" "j < k + 1" "in_strip j x y" by (auto simp: covered_def)
  show "covered k x y \<or> (0 \<le> k \<and> in_strip k x y)"
  proof (cases "j = k")
    case True
    with j show ?thesis by simp
  next
    case False
    with j have "j < k" by simp
    with j show ?thesis by (auto simp: covered_def)
  qed
next
  assume "covered k x y \<or> (0 \<le> k \<and> in_strip k x y)"
  then show "covered (k + 1) x y"
    by (auto simp: covered_def intro: exI [of _ k])
qed

lemma painted_upto_step:
  assumes k: "k = 0 \<or> k = 1 \<or> k = 2 \<or> k = 3" and p: "painted_upto k s"
  shows "painted_upto (k + 1) (compute_mandelbrot (strip k) s)"
proof -
  let ?s' = "compute_mandelbrot (strip k) s"
  from p have sb: "same_bounds s default_viewport"
    and len: "length (pixbuf s) = nat (WIDTH * HEIGHT)"
    and px: "\<And>x y. 0 \<le> x \<and> x < WIDTH \<and> 0 \<le> y \<and> y < HEIGHT \<Longrightarrow>
        pixel_at x y s =
          (if covered k x y then get_color (escape_iter default_viewport x y) else pix_white)"
    by (simp_all add: painted_upto_def)
  have fresh: "\<not> covered k x y" if "in_strip k x y" for x y
  proof
    assume "covered k x y"
    then obtain j where "j < k" "in_strip j x y" by (auto simp: covered_def)
    with that strips_disjoint [of j x y k] show False by simp
  qed
  have white: "\<forall>x y. in_strip k x y \<longrightarrow> pixel_at x y s = pix_white"
    using px in_strip_raster [OF k] fresh by simp
  have k0: "0 \<le> k" using k by auto
  have "pixel_at x y ?s' =
          (if covered (k + 1) x y then get_color (escape_iter default_viewport x y) else pix_white)"
    if r: "0 \<le> x \<and> x < WIDTH \<and> 0 \<le> y \<and> y < HEIGHT" for x y
  proof (cases "in_strip k x y")
    case True
    have "pixel_at x y ?s' = get_color (escape_iter s x y)"
      using k white len True by (rule worker_paints_strip)
    also have "\<dots> = get_color (escape_iter default_viewport x y)"
      by (simp add: escape_iter_bounds [OF sb])
    finally show ?thesis using True k0 by (simp add: covered_step)
  next
    case False
    have "pixel_at x y ?s' = pixel_at x y s"
      using k False r by (intro worker_outside_strip) simp_all
    then show ?thesis using px [OF r] False by (simp add: covered_step)
  qed
  moreover have "same_bounds ?s' default_viewport"
    using sb by (simp add: same_bounds_def compute_mandelbrot_frame)
  moreover have "length (pixbuf ?s') = nat (WIDTH * HEIGHT)"
    using len by (simp add: compute_mandelbrot_frame)
  ultimately show ?thesis by (simp add: painted_upto_def)
qed

lemma covered_all:
  assumes "0 \<le> x" "x < WIDTH" "0 \<le> y" "y < HEIGHT"
  shows "covered 4 x y \<longleftrightarrow> x < 1364"
proof -
  have "covered 4 x y \<longleftrightarrow> in_strip 0 x y \<or> in_strip 1 x y \<or> in_strip 2 x y \<or> in_strip 3 x y"
  proof
    assume "covered 4 x y"
    then obtain j where "0 \<le> j" "j < 4" "in_strip j x y" by (auto simp: covered_def)
    moreover from this have "j = 0 \<or> j = 1 \<or> j = 2 \<or> j = 3" by linarith
    ultimately show "in_strip 0 x y \<or> in_strip 1 x y \<or> in_strip 2 x y \<or> in_strip 3 x y"
      by auto
  next
    assume "in_strip 0 x y \<or> in_strip 1 x y \<or> in_strip 2 x y \<or> in_strip 3 x y"
    then consider "in_strip 0 x y" | "in_strip 1 x y" | "in_strip 2 x y" | "in_strip 3 x y"
      by blast
    then show "covered 4 x y"
    proof cases
      case 1
      then show ?thesis unfolding covered_def by (intro exI [of _ 0]) simp
    next
      case 2
      then show ?thesis unfolding covered_def by (intro exI [of _ 1]) simp
    next
      case 3
      then show ?thesis unfolding covered_def by (intro exI [of _ 2]) simp
    next
      case 4
      then show ?thesis unfolding covered_def by (intro exI [of _ 3]) simp
    qed
  qed
  with strips_union [OF assms] show ?thesis by simp
qed

lemma completed_pass:
  "\<exists>s5. and_then
          (and_then
             (and_then
                (and_then (main_start always_ok) (worker_finishes 0))
                (worker_finishes 1))
             (worker_finishes 2))
          (worker_finishes 3) = Inr s5 \<and>
        (\<forall>x y. 0 \<le> x \<and> x < WIDTH \<and> 0 \<le> y \<and> y < HEIGHT \<longrightarrow>
           pixel_at x y s5 =
             (if x < 1364 then get_color (escape_iter default_viewport x y) else pix_white))"
proof -
  from main_start_effect obtain s1 where s1:
    "main_start always_ok = Inr s1" "pixbuf s1 = white_raster"
    "bound_left s1 = bound_left default_viewport" "bound_right s1 = bound_right default_viewport"
    "bound_top s1 = bound_top default_viewport" "bound_bottom s1 = bound_bottom default_viewport"
    by blast
  have nc: "\<not> covered 0 x y" for x y by (simp add: covered_def)
  have idx: "pix_index x y < 1049088" if "0 \<le> x \<and> x < WIDTH \<and> 0 \<le> y \<and> y < HEIGHT" for x y
  proof -
    from that have "0 \<le> y * 1366 + x" "y * 1366 + x < 1366 * 768"
      by (simp_all add: WIDTH_def HEIGHT_def)
    then show ?thesis by (simp add: pix_index_def WIDTH_def)
  qed
  have p0: "painted_upto 0 s1"
    by (simp add: painted_upto_def same_bounds_def s1 nc pixel_at_def white_raster_nth idx
        length_white_raster WIDTH_def HEIGHT_def)
  have p1: "painted_upto 1 (compute_mandelbrot (strip 0) s1)"
    using painted_upto_step [of 0 s1] p0 by simp
  have p2: "painted_upto 2 (compute_mandelbrot (strip 1) (compute_mandelbrot (strip 0) s1))"
    using painted_upto_step [OF _ p1] by simp
  have p3: "painted_upto 3 (compute_mandelbrot (strip 2)
      (compute_mandelbrot (strip 1) (compute_mandelbrot (strip 0) s1)))"
    using painted_upto_step [OF _ p2] by simp
  have p4: "painted_upto 4 (compute_mandelbrot (strip 3) (compute_mandelbrot (strip 2)
      (compute_mandelbrot (strip 1) (compute_mandelbrot (strip 0) s1))))"
    using painted_upto_step [OF _ p3] by simp
  show ?thesis
    using p4 by (simp add: s1 and_then_simps worker_finishes_def painted_upto_def covered_all)
qed

end
